theory Spec2Isabelle
  imports Main "HOL-Library.Sublist" "HOL-Library.List_Lexorder" "HOL-Library.Multiset"
begin

section \<open>Python values\<close>

text \<open>
  The scraper handles decoded JSON: nested dictionaries with string keys, lists, strings,
  integers, booleans and None. A dictionary is an association list in insertion order
  (keys distinct, as \<open>json.loads\<close> produces them). A string is the list of bytes of its
  UTF-8 encoding, so an ASCII character is one byte below 128; equality, concatenation,
  substring search and lexicographic comparison of the encodings agree with Python's on
  the strings. Floating-point values do not occur in the API sections the code reads
  and are not part of the model.
\<close>

datatype pyval =
    PNone
  | PBool bool
  | PInt int
  | PStr string
  | PList "pyval list"
  | PDict "(string \<times> pyval) list"

text \<open>
  The exceptions the code can meet; \<open>RequestFailed\<close> is the \<open>Exception\<close> the
  YouTube client raises when an API request fails.
\<close>

datatype error = AttributeError | TypeError | ValueError | KeyError | RequestFailed

text \<open>Truth value of an object, as \<open>not x\<close> and \<open>if x\<close> test it.\<close>

fun truthy :: "pyval \<Rightarrow> bool" where
  "truthy PNone = False"
| "truthy (PBool b) = b"
| "truthy (PInt i) = (i \<noteq> 0)"
| "truthy (PStr s) = (s \<noteq> [])"
| "truthy (PList xs) = (xs \<noteq> [])"
| "truthy (PDict d) = (d \<noteq> [])"

text \<open>\<open>d.get(k, default)\<close> on a dictionary.\<close>

definition dict_get :: "(string \<times> pyval) list \<Rightarrow> string \<Rightarrow> pyval \<Rightarrow> pyval" where
  "dict_get d k dflt = (case map_of d k of Some v \<Rightarrow> v | None \<Rightarrow> dflt)"

text \<open>\<open>x.get(k, default)\<close> on any object: only a dictionary has the method.\<close>

fun py_get :: "pyval \<Rightarrow> string \<Rightarrow> pyval \<Rightarrow> error + pyval" where
  "py_get (PDict d) k dflt = Inr (dict_get d k dflt)"
| "py_get _ k dflt = Inl AttributeError"


section \<open>Sequencing and the Unicode character database\<close>

text \<open>Sequencing of steps that may raise.\<close>

definition then_do :: "error + 'a \<Rightarrow> ('a \<Rightarrow> error + 'b) \<Rightarrow> error + 'b" where
  "then_do r f = (case r of Inl e \<Rightarrow> Inl e | Inr x \<Rightarrow> f x)"

text \<open>A list comprehension or a key function applied to each element, in order.\<close>

fun map_raising :: "('a \<Rightarrow> error + 'b) \<Rightarrow> 'a list \<Rightarrow> error + 'b list" where
  "map_raising f [] = Inr []"
| "map_raising f (x # xs) =
     then_do (f x) (\<lambda>y. then_do (map_raising f xs) (\<lambda>ys. Inr (y # ys)))"

text \<open>The results of steps taken in order: the first exception, or all the values.\<close>

fun collect :: "(error + 'a) list \<Rightarrow> error + 'a list" where
  "collect [] = Inr []"
| "collect (r # rs) = then_do r (\<lambda>y. then_do (collect rs) (\<lambda>ys. Inr (y # ys)))"

text \<open>
  On ASCII strings Python's string operations are modelled in full. What they do with
  a string that holds a character outside ASCII is decided by the Unicode character
  database of the interpreter (which characters are letters with a lowercase form,
  decimal digits, whitespace, printable), which is not part of the repository. Those
  results are parameters: \<open>lower_nonascii s\<close> is \<open>s.lower()\<close>, \<open>int_nonascii s\<close> is
  \<open>int(s)\<close>, \<open>search_nonascii x s\<close> is the first group of
  \<open>re.search(r'(\d+)x', s)\<close> or \<open>None\<close>, and \<open>repr_nonascii s\<close> is \<open>repr(s)\<close>, each
  for a string \<open>s\<close> that is not ASCII.
\<close>

record unicode =
  lower_nonascii :: "string \<Rightarrow> string"
  int_nonascii :: "string \<Rightarrow> error + int"
  search_nonascii :: "char \<Rightarrow> string \<Rightarrow> string option"
  repr_nonascii :: "string \<Rightarrow> string"

definition is_ascii :: "string \<Rightarrow> bool" where
  "is_ascii s = list_all (\<lambda>c. of_char c < (128 :: nat)) s"

text \<open>
  The characters of a string: a character starts at every byte that is not a UTF-8
  continuation byte.
\<close>

definition is_continuation :: "char \<Rightarrow> bool" where
  "is_continuation c = ((128 :: nat) \<le> of_char c \<and> of_char c < (192 :: nat))"

function codepoints :: "string \<Rightarrow> string list" where
  "codepoints [] = []"
| "codepoints (c # cs) =
     (c # takeWhile is_continuation cs) # codepoints (dropWhile is_continuation cs)"
  by pat_completeness auto
termination
  by (relation "measure length") (auto simp: length_dropWhile_le less_Suc_eq_le)

section \<open>Decimal digits\<close>

definition is_digit :: "char \<Rightarrow> bool" where
  "is_digit c = (c \<in> set ''0123456789'')"

definition digit_val :: "char \<Rightarrow> int" where
  "digit_val c = int (of_char c) - 48"

definition digit_char :: "nat \<Rightarrow> char" where
  "digit_char n = ''0123456789'' ! n"

text \<open>The value of a string of ASCII decimal digits.\<close>

definition int_of_digits :: "string \<Rightarrow> int" where
  "int_of_digits ds = foldl (\<lambda>a c. 10 * a + digit_val c) 0 ds"

text \<open>The decimal digits of a non-negative integer.\<close>

fun dec :: "nat \<Rightarrow> string" where
  "dec n = (if n < 10 then [digit_char n] else dec (n div 10) @ [digit_char (n mod 10)])"

declare dec.simps [simp del]

text \<open>
  CPython (3.11; the default of \<open>sys.set_int_max_str_digits\<close>) refuses to convert
  between \<open>str\<close> and \<open>int\<close> when more than 4300 decimal digits are involved, in
  either direction, with ValueError.
\<close>

definition max_str_digits :: nat where
  "max_str_digits = 4300"

text \<open>\<open>str(i)\<close> for an integer, also as \<open>{i}\<close> formats it.\<close>

definition str_of_int :: "int \<Rightarrow> error + string" where
  "str_of_int i =
     (let ds = dec (nat \<bar>i\<bar>)
      in if max_str_digits < length ds then Inl ValueError
         else Inr (if i < 0 then CHR ''-'' # ds else ds))"

text \<open>
  \<open>int(x)\<close>. An ASCII string is stripped of surrounding whitespace and then has to be
  an optional sign and decimal digits, single underscores allowed between digits, at
  most 4300 digits.
\<close>

definition is_space :: "char \<Rightarrow> bool" where
  "is_space c = (of_char c \<in> {9, 10, 11, 12, 13, 32 :: nat})"

definition strip :: "string \<Rightarrow> string" where
  "strip s = rev (dropWhile is_space (rev (dropWhile is_space s)))"

fun plain_digits :: "string \<Rightarrow> string option" where
  "plain_digits [] = None"
| "plain_digits [c] = (if is_digit c then Some [c] else None)"
| "plain_digits (c # d # cs) =
     (if \<not> is_digit c then None
      else if d = CHR ''_'' then map_option ((#) c) (plain_digits cs)
      else map_option ((#) c) (plain_digits (d # cs)))"

definition int_of_string :: "unicode \<Rightarrow> string \<Rightarrow> error + int" where
  "int_of_string U s =
     (if \<not> is_ascii s then int_nonascii U s
      else
        let t = strip s;
            (neg, body) = (case t of
                             c # cs \<Rightarrow> if c = CHR ''-'' then (True, cs)
                                       else if c = CHR ''+'' then (False, cs) else (False, t)
                           | [] \<Rightarrow> (False, t))
        in case plain_digits body of
             None \<Rightarrow> Inl ValueError
           | Some ds \<Rightarrow>
               if max_str_digits < length ds then Inl ValueError
               else Inr (if neg then - int_of_digits ds else int_of_digits ds))"

fun py_int :: "unicode \<Rightarrow> pyval \<Rightarrow> error + int" where
  "py_int U (PInt i) = Inr i"
| "py_int U (PBool b) = Inr (if b then 1 else 0)"
| "py_int U (PStr s) = int_of_string U s"
| "py_int U _ = Inl TypeError"

section \<open>Duration codec (data\_processor.py)\<close>

text \<open>\<open>s.replace('PT', '')\<close>: every non-overlapping occurrence, left to right.\<close>

fun replace_PT :: "string \<Rightarrow> string" where
  "replace_PT [] = []"
| "replace_PT [c] = [c]"
| "replace_PT (c # d # cs) =
     (if c = CHR ''P'' \<and> d = CHR ''T'' then replace_PT cs else c # replace_PT (d # cs))"

text \<open>
  The pattern \<open>(\d+)X\<close> tried at the start of an ASCII string \<open>s\<close>: the greedy group
  takes the whole run of digits; a shorter group is followed by a digit, never by the
  designator, so backtracking finds nothing more. The result is the group.
\<close>

definition match_at :: "char \<Rightarrow> string \<Rightarrow> string option" where
  "match_at x s =
     (let ds = takeWhile is_digit s; rest = dropWhile is_digit s
      in if ds \<noteq> [] \<and> rest \<noteq> [] \<and> hd rest = x then Some ds else None)"

text \<open>
  \<open>re.search(r'(\d+)X', s)\<close> on an ASCII string: the match at the leftmost start
  position.
\<close>

fun re_search :: "char \<Rightarrow> string \<Rightarrow> string option" where
  "re_search x [] = None"
| "re_search x (c # cs) =
     (case match_at x (c # cs) of Some g \<Rightarrow> Some g | None \<Rightarrow> re_search x cs)"

text \<open>The search on any string, and \<open>int(match.group(1))\<close> when there is a match.\<close>

definition search :: "unicode \<Rightarrow> char \<Rightarrow> string \<Rightarrow> string option" where
  "search U x s = (if is_ascii s then re_search x s else search_nonascii U x s)"

definition component :: "unicode \<Rightarrow> char \<Rightarrow> string \<Rightarrow> error + int" where
  "component U x s = (case search U x s of Some g \<Rightarrow> int_of_string U g | None \<Rightarrow> Inr 0)"

fun parse_duration :: "unicode \<Rightarrow> pyval \<Rightarrow> error + int" where
  "parse_duration U (PStr s) =
     (if s = [] \<or> s = ''N/A'' then Inr 0
      else let t = replace_PT s
           in then_do (component U CHR ''H'' t) (\<lambda>hours.
              then_do (component U CHR ''M'' t) (\<lambda>minutes.
              then_do (component U CHR ''S'' t) (\<lambda>seconds.
              Inr (hours * 3600 + minutes * 60 + seconds)))))"
| "parse_duration U v = (if \<not> truthy v then Inr 0 else Inl AttributeError)"

text \<open>\<open>{n:02d}\<close> for a non-negative integer below 100.\<close>

definition pad2 :: "nat \<Rightarrow> string" where
  "pad2 n = (if n < 10 then CHR ''0'' # dec n else dec n)"

definition format_duration :: "int \<Rightarrow> error + string" where
  "format_duration seconds =
     (if seconds = 0 then Inr ''0:00''
      else let hours = seconds div 3600;
               minutes = (seconds mod 3600) div 60;
               secs = seconds mod 60
           in if hours > 0
              then then_do (str_of_int hours)
                     (\<lambda>h. Inr (h @ '':'' @ pad2 (nat minutes) @ '':'' @ pad2 (nat secs)))
              else Inr (dec (nat minutes) @ '':'' @ pad2 (nat secs)))"

definition is_youtube_short :: "int \<Rightarrow> bool" where
  "is_youtube_short duration_seconds = (0 < duration_seconds \<and> duration_seconds \<le> 60)"

definition get_video_type :: "int \<Rightarrow> string" where
  "get_video_type duration_seconds =
     (if duration_seconds = 0 then ''Unknown''
      else if duration_seconds \<le> 60 then ''Short''
      else if duration_seconds \<le> 240 then ''Short Video''
      else if duration_seconds \<le> 600 then ''Medium Video''
      else if duration_seconds \<le> 1200 then ''Long Video''
      else ''Very Long Video'')"

text \<open>
  The duration token \<open>PT[nH][nM][nS]\<close> as the API writes it: each component is a
  decimal number with its designator, or absent.
\<close>

definition token_body :: "nat option \<Rightarrow> nat option \<Rightarrow> nat option \<Rightarrow> string" where
  "token_body h m s =
     (case h of Some n \<Rightarrow> dec n @ ''H'' | None \<Rightarrow> [])
     @ (case m of Some n \<Rightarrow> dec n @ ''M'' | None \<Rightarrow> [])
     @ (case s of Some n \<Rightarrow> dec n @ ''S'' | None \<Rightarrow> [])"

definition duration_token :: "nat option \<Rightarrow> nat option \<Rightarrow> nat option \<Rightarrow> string" where
  "duration_token h m s = ''PT'' @ token_body h m s"

definition or_zero :: "nat option \<Rightarrow> int" where
  "or_zero c = (case c of Some n \<Rightarrow> int n | None \<Rightarrow> 0)"


text \<open>A component that \<open>int()\<close> converts: absent, or of at most 4300 digits.\<close>

fun fits :: "nat option \<Rightarrow> bool" where
  "fits None = True"
| "fits (Some n) = (length (dec n) \<le> max_str_digits)"

text \<open>
  Tables for the worked examples; the strings there are ASCII, so nothing depends on
  the choice.
\<close>

definition plain_tables :: unicode where
  "plain_tables =
     \<lparr>lower_nonascii = (\<lambda>s. s), int_nonascii = (\<lambda>s. Inl ValueError),
      search_nonascii = (\<lambda>x s. None), repr_nonascii = (\<lambda>s. s)\<rparr>"

section \<open>Search handler (search\_handler.py)\<close>

text \<open>Iterating over an object, as \<open>list.extend\<close> and \<open>str.join\<close> do.\<close>

fun py_iter :: "pyval \<Rightarrow> error + pyval list" where
  "py_iter (PList xs) = Inr xs"
| "py_iter (PStr s) = Inr (map PStr (codepoints s))"
| "py_iter (PDict d) = Inr (map (\<lambda>kv. PStr (fst kv)) d)"
| "py_iter _ = Inl TypeError"

text \<open>\<open>sep.join(parts)\<close> on a list of strings.\<close>

fun str_join :: "string \<Rightarrow> string list \<Rightarrow> string" where
  "str_join sep [] = []"
| "str_join sep [p] = p"
| "str_join sep (p # q # ps) = p @ sep @ str_join sep (q # ps)"

text \<open>\<open>x[k]\<close> with a string key.\<close>

fun py_subscript :: "pyval \<Rightarrow> string \<Rightarrow> error + pyval" where
  "py_subscript (PDict d) k = (case map_of d k of Some v \<Rightarrow> Inr v | None \<Rightarrow> Inl KeyError)"
| "py_subscript _ k = Inl TypeError"

text \<open>
  A call either returns a value or raises. A loop that is not known to end takes fuel,
  one unit for each iteration, and yields \<open>None\<close> when the fuel runs out.
\<close>

datatype 'a outcome = Returns 'a | Raises error

fun raises :: "'a outcome option \<Rightarrow> bool" where
  "raises (Some (Raises e)) = True"
| "raises _ = False"

text \<open>
  The YouTube client is the injected collaborator. A call takes the client's state and
  the arguments the handler passes, and gives the new state with either the response
  or the exception raised.
\<close>

record search_request =
  query :: string
  max_results :: int
  order :: string
  page_token :: pyval
  published_after :: "string option"
  published_before :: "string option"

type_synonym 'c search_client = "'c \<Rightarrow> search_request \<Rightarrow> 'c \<times> (error + pyval)"

type_synonym 'c details_client = "'c \<Rightarrow> pyval list \<Rightarrow> 'c \<times> (error + pyval)"

text \<open>
  The handler object: client state, \<open>self.search_results\<close>, \<open>self.video_details\<close>.
  \<open>search_calls\<close> and \<open>details_calls\<close> record the requests issued, in order; the
  source has no such fields, they only make the calls observable.
\<close>

record 'c handler =
  client :: 'c
  search_results :: "pyval list"
  video_details :: "pyval list"
  search_calls :: "search_request list"
  details_calls :: "(pyval list \<times> (error + pyval)) list"

text \<open>
  The body of the \<open>try\<close> block after the call returned: \<open>all_videos\<close> extended by the
  page's items and the next page token, or the exception raised on the way.
\<close>

definition read_page :: "pyval list \<Rightarrow> pyval \<Rightarrow> pyval list \<times> (error + pyval)" where
  "read_page all_videos response =
     (case py_get response ''items'' (PList []) of
        Inl e \<Rightarrow> (all_videos, Inl e)
      | Inr videos \<Rightarrow>
          (case py_iter videos of
             Inl e \<Rightarrow> (all_videos, Inl e)
           | Inr vs \<Rightarrow> (all_videos @ vs, py_get response ''nextPageToken'' PNone)))"

fun search_loop ::
  "nat \<Rightarrow> 'c search_client \<Rightarrow> search_request \<Rightarrow> int \<Rightarrow> 'c handler \<Rightarrow> pyval list \<Rightarrow> pyval
   \<Rightarrow> ('c handler \<times> pyval list) option" where
  "search_loop 0 cl req max_total_results h all_videos next_page_token =
     (if \<not> int (length all_videos) < max_total_results then Some (h, all_videos) else None)"
| "search_loop (Suc fuel) cl req max_total_results h all_videos next_page_token =
     (if \<not> int (length all_videos) < max_total_results then Some (h, all_videos)
      else
        let r = req\<lparr>max_results := min 50 (max_total_results - int (length all_videos)),
                    page_token := next_page_token\<rparr>;
            (c', res) = cl (client h) r;
            h' = h\<lparr>client := c', search_calls := search_calls h @ [r]\<rparr>
        in case res of
             Inl e \<Rightarrow> Some (h', all_videos)
           | Inr response \<Rightarrow>
               (case read_page all_videos response of
                  (all_videos', Inl e) \<Rightarrow> Some (h', all_videos')
                | (all_videos', Inr tok) \<Rightarrow>
                    if \<not> truthy tok then Some (h', all_videos')
                    else search_loop fuel cl req max_total_results h' all_videos' tok))"

definition search_videos_with_keywords ::
  "nat \<Rightarrow> 'c search_client \<Rightarrow> 'c handler \<Rightarrow> string list \<Rightarrow> int \<Rightarrow> string
   \<Rightarrow> string option \<Rightarrow> string option \<Rightarrow> ('c handler \<times> pyval list) outcome option" where
  "search_videos_with_keywords fuel cl h keywords max_total_results ord pub_after pub_before =
     (let q = str_join '' '' keywords;
          req = \<lparr>query = q, max_results = 50, order = ord, page_token = PNone,
                 published_after = pub_after, published_before = pub_before\<rparr>
      in case search_loop fuel cl req max_total_results h [] PNone of
           None \<Rightarrow> None
         | Some (h', all_videos) \<Rightarrow>
             Some (Returns (h'\<lparr>search_results := all_videos\<rparr>, all_videos)))"

text \<open>
  A scripted client for the pagination scenario: the first page holds 50 stubs and the
  token \<open>T1\<close>, the page for \<open>T1\<close> holds 30 stubs and no token, and any other
  request fails.
\<close>

definition stubs :: "nat \<Rightarrow> nat \<Rightarrow> pyval list" where
  "stubs a n = map (\<lambda>i. PDict [(''id'', PDict [(''videoId'', PStr (dec i))])]) [a..<a + n]"

definition two_pages :: "unit search_client" where
  "two_pages c r =
     (if page_token r = PNone
      then (c, Inr (PDict [(''items'', PList (stubs 0 50)), (''nextPageToken'', PStr ''T1'')]))
      else if page_token r = PStr ''T1''
      then (c, Inr (PDict [(''items'', PList (stubs 50 30))]))
      else (c, Inl RequestFailed))"


definition h0 :: "unit handler" where
  "h0 = \<lparr>client = (), search_results = [], video_details = [], search_calls = [],
          details_calls = []\<rparr>"



text \<open>\<open>[item['id']['videoId'] for item in batch]\<close>\<close>

definition video_id :: "pyval \<Rightarrow> error + pyval" where
  "video_id item =
     (case py_subscript item ''id'' of
        Inl e \<Rightarrow> Inl e
      | Inr i \<Rightarrow> py_subscript i ''videoId'')"

fun video_ids :: "pyval list \<Rightarrow> error + pyval list" where
  "video_ids [] = Inr []"
| "video_ids (item # batch) =
     (case video_id item of
        Inl e \<Rightarrow> Inl e
      | Inr i \<Rightarrow> (case video_ids batch of Inl e \<Rightarrow> Inl e | Inr ids \<Rightarrow> Inr (i # ids)))"

text \<open>
  The items a response of \<open>get_video_details\<close> contributes: \<open>response.get('items', [])\<close>,
  iterated by \<open>extend\<close>; either step may raise inside the \<open>try\<close> block.
\<close>

definition details_of :: "pyval \<Rightarrow> error + pyval list" where
  "details_of response =
     (case py_get response ''items'' (PList []) of
        Inl e \<Rightarrow> Inl e
      | Inr details \<Rightarrow> py_iter details)"

text \<open>
  The loop \<open>for i in range(0, len(video_items), 50)\<close>. The identifiers are collected
  outside the \<open>try\<close> block, so an item without one makes the call raise; a failure of
  the request or in reading its response is caught, and the loop goes on.
\<close>

function fetch_loop ::
  "'c details_client \<Rightarrow> pyval list \<Rightarrow> nat \<Rightarrow> 'c handler \<Rightarrow> pyval list
   \<Rightarrow> ('c handler \<times> pyval list) outcome" where
  "fetch_loop cl video_items i h all_details =
     (if \<not> i < length video_items then Returns (h, all_details)
      else
        let batch = take 50 (drop i video_items)
        in case video_ids batch of
             Inl e \<Rightarrow> Raises e
           | Inr ids \<Rightarrow>
               let (c', res) = cl (client h) ids;
                   h' = h\<lparr>client := c', details_calls := details_calls h @ [(ids, res)]\<rparr>
               in case res of
                    Inl e \<Rightarrow> fetch_loop cl video_items (i + 50) h' all_details
                  | Inr response \<Rightarrow>
                      (case details_of response of
                         Inl e \<Rightarrow> fetch_loop cl video_items (i + 50) h' all_details
                       | Inr details \<Rightarrow>
                           fetch_loop cl video_items (i + 50) h' (all_details @ details)))"
  by pat_completeness auto
termination
  by (relation "measure (\<lambda>(cl, video_items, i, h, all_details). length video_items - i)") auto

declare fetch_loop.simps [simp del]

definition fetch_video_statistics ::
  "'c details_client \<Rightarrow> 'c handler \<Rightarrow> pyval list option
   \<Rightarrow> ('c handler \<times> pyval list) outcome" where
  "fetch_video_statistics cl h video_items_arg =
     (let video_items = (case video_items_arg of None \<Rightarrow> search_results h | Some v \<Rightarrow> v)
      in if video_items = [] then Returns (h, [])
         else case fetch_loop cl video_items 0 h [] of
                Raises e \<Rightarrow> Raises e
              | Returns (h', all_details) \<Rightarrow>
                  Returns (h'\<lparr>video_details := all_details\<rparr>, all_details))"

text \<open>Consecutive batches of at most \<open>n\<close> elements.\<close>

function batches :: "nat \<Rightarrow> 'a list \<Rightarrow> 'a list list" where
  "batches n xs = (if n = 0 \<or> xs = [] then [] else take n xs # batches n (drop n xs))"
  by pat_completeness auto
termination
  by (relation "measure (\<lambda>(n, xs). length xs)") auto

declare batches.simps [simp del]

text \<open>What one logged call contributes to the output: nothing when it failed.\<close>

definition contribution :: "pyval list \<times> (error + pyval) \<Rightarrow> pyval list" where
  "contribution call =
     (case snd call of
        Inl e \<Rightarrow> []
      | Inr response \<Rightarrow> (case details_of response of Inl e \<Rightarrow> [] | Inr details \<Rightarrow> details))"

text \<open>
  A scripted details client: the state counts the calls; the second call fails, every
  other call returns one detail item for each identifier it was given.
\<close>

definition second_fails :: "nat details_client" where
  "second_fails c ids =
     (if c = 1 then (Suc c, Inl RequestFailed)
      else (Suc c, Inr (PDict [(''items'', PList (map (\<lambda>i. PDict [(''id'', i)]) ids))])))"

definition h1 :: "nat handler" where
  "h1 = \<lparr>client = 0, search_results = [], video_details = [], search_calls = [],
          details_calls = []\<rparr>"


text \<open>
  The detail requests for a list of batches, issued in order from a client state: the
  final state and each batch with the result of its call.
\<close>

fun run_batches ::
  "'c details_client \<Rightarrow> 'c \<Rightarrow> pyval list list \<Rightarrow> 'c \<times> (pyval list \<times> (error + pyval)) list"
  where
  "run_batches cl c [] = (c, [])"
| "run_batches cl c (b # bs) =
     (let (c', res) = cl c b;
          (c'', calls) = run_batches cl c' bs
      in (c'', (b, res) # calls))"

section \<open>More of Python's built-in operations\<close>

text \<open>
  \<open>repr(s)\<close> for an ASCII string: single quotes unless the string holds a single
  quote and no double quote; backslash, the chosen quote and control characters are
  escaped.
\<close>

definition hex_digit :: "nat \<Rightarrow> char" where
  "hex_digit n = ''0123456789abcdef'' ! n"

definition escape_char :: "char \<Rightarrow> char \<Rightarrow> string" where
  "escape_char q c =
     (if c = CHR 0x5C then [CHR 0x5C, CHR 0x5C]
      else if c = q then [CHR 0x5C, q]
      else if c = CHR 0x0A then [CHR 0x5C, CHR ''n'']
      else if c = CHR 0x0D then [CHR 0x5C, CHR ''r'']
      else if c = CHR 0x09 then [CHR 0x5C, CHR ''t'']
      else if of_char c < (32 :: nat) \<or> (127 :: nat) \<le> of_char c
      then [CHR 0x5C, CHR ''x'', hex_digit (of_char c div 16), hex_digit (of_char c mod 16)]
      else [c])"

definition repr_str :: "unicode \<Rightarrow> string \<Rightarrow> string" where
  "repr_str U s =
     (if \<not> is_ascii s then repr_nonascii U s
      else
        let q = (if CHR 0x27 \<in> set s \<and> CHR 0x22 \<notin> set s then CHR 0x22 else CHR 0x27)
        in [q] @ concat (map (escape_char q) s) @ [q])"

text \<open>\<open>repr(x)\<close>; it raises where an integer inside \<open>x\<close> has too many digits.\<close>

fun py_repr :: "unicode \<Rightarrow> pyval \<Rightarrow> error + string" where
  "py_repr U PNone = Inr ''None''"
| "py_repr U (PBool b) = Inr (if b then ''True'' else ''False'')"
| "py_repr U (PInt i) = str_of_int i"
| "py_repr U (PStr s) = Inr (repr_str U s)"
| "py_repr U (PList xs) =
     then_do (collect (map (py_repr U) xs))
       (\<lambda>rs. Inr (''['' @ str_join '', '' rs @ '']''))"
| "py_repr U (PDict d) =
     then_do (collect (map (\<lambda>(k, v). then_do (py_repr U v)
                                        (\<lambda>r. Inr (repr_str U k @ '': '' @ r))) d))
       (\<lambda>rs. Inr (''{'' @ str_join '', '' rs @ ''}''))"

text \<open>\<open>str(x)\<close>, as an f-string formats a value.\<close>

fun py_str :: "unicode \<Rightarrow> pyval \<Rightarrow> error + string" where
  "py_str U (PStr s) = Inr s"
| "py_str U v = py_repr U v"

text \<open>
  \<open>s.lower()\<close>: on an ASCII string the letters A to Z are replaced by a to z; and
  \<open>x.lower()\<close> on any object.
\<close>

definition lower_char :: "char \<Rightarrow> char" where
  "lower_char c =
     (if (65 :: nat) \<le> of_char c \<and> of_char c \<le> (90 :: nat)
      then char_of (of_char c + (32 :: nat)) else c)"

definition lower :: "string \<Rightarrow> string" where
  "lower s = map lower_char s"

definition str_lower :: "unicode \<Rightarrow> string \<Rightarrow> string" where
  "str_lower U s = (if is_ascii s then lower s else lower_nonascii U s)"

fun py_lower :: "unicode \<Rightarrow> pyval \<Rightarrow> error + pyval" where
  "py_lower U (PStr s) = Inr (PStr (str_lower U s))"
| "py_lower U _ = Inl AttributeError"

text \<open>
  Lowercasing a lowercased string changes nothing. Python's \<open>str.lower\<close> has this
  property; for the parameter it is a condition.
\<close>

definition lower_idempotent :: "unicode \<Rightarrow> bool" where
  "lower_idempotent U \<longleftrightarrow> (\<forall>s. str_lower U (str_lower U s) = str_lower U s)"

text \<open>\<open>k in s\<close> for two strings: \<open>k\<close> occurs in \<open>s\<close> as a contiguous piece.\<close>

fun is_prefix :: "string \<Rightarrow> string \<Rightarrow> bool" where
  "is_prefix [] s = True"
| "is_prefix (c # cs) [] = False"
| "is_prefix (c # cs) (d # ds) = (c = d \<and> is_prefix cs ds)"

fun is_substring :: "string \<Rightarrow> string \<Rightarrow> bool" where
  "is_substring k [] = (k = [])"
| "is_substring k (c # cs) = (is_prefix k (c # cs) \<or> is_substring k cs)"

text \<open>
  \<open>keyword in x\<close> for a string \<open>keyword\<close> and any object: substring test on a string,
  membership in a list, key test on a dictionary; other objects are not containers.
\<close>

fun py_contains :: "pyval \<Rightarrow> string \<Rightarrow> error + bool" where
  "py_contains (PStr s) k = Inr (is_substring k s)"
| "py_contains (PList xs) k = Inr (PStr k \<in> set xs)"
| "py_contains (PDict d) k = Inr (k \<in> fst ` set d)"
| "py_contains _ k = Inl TypeError"

text \<open>
  \<open>x[:n]\<close>: the first \<open>n\<close> characters of a string or elements of a list; any other
  object raises (TypeError for
  None and numbers; a dictionary raises TypeError or, from Python 3.12 on, KeyError,
  modelled as TypeError).
\<close>

fun py_slice_to :: "pyval \<Rightarrow> nat \<Rightarrow> error + pyval" where
  "py_slice_to (PStr s) n = Inr (PStr (concat (take n (codepoints s))))"
| "py_slice_to (PList xs) n = Inr (PList (take n xs))"
| "py_slice_to _ n = Inl TypeError"

text \<open>\<open>sep.join(x)\<close> for any object: every element has to be a string.\<close>

fun strings_of :: "pyval list \<Rightarrow> error + string list" where
  "strings_of [] = Inr []"
| "strings_of (PStr s # vs) = then_do (strings_of vs) (\<lambda>ss. Inr (s # ss))"
| "strings_of (_ # vs) = Inl TypeError"

definition py_join :: "string \<Rightarrow> pyval \<Rightarrow> error + string" where
  "py_join sep x =
     then_do (py_iter x) (\<lambda>vs. then_do (strings_of vs) (\<lambda>ss. Inr (str_join sep ss)))"

text \<open>
  Ordering. Numbers (booleans count as 0 and 1) compare with numbers, strings with
  strings by code point, lists with lists elementwise; every other pair of operands
  raises TypeError. Equality never raises.
\<close>

fun num_of :: "pyval \<Rightarrow> int option" where
  "num_of (PInt i) = Some i"
| "num_of (PBool b) = Some (if b then 1 else 0)"
| "num_of _ = None"

fun str_lt :: "string \<Rightarrow> string \<Rightarrow> bool" where
  "str_lt [] [] = False"
| "str_lt [] (d # ds) = True"
| "str_lt (c # cs) [] = False"
| "str_lt (c # cs) (d # ds) =
     (if c = d then str_lt cs ds else (of_char c :: nat) < of_char d)"

fun py_eq :: "pyval \<Rightarrow> pyval \<Rightarrow> bool" where
  "py_eq (PStr s) (PStr t) = (s = t)"
| "py_eq PNone PNone = True"
| "py_eq (PList xs) (PList ys) = list_all2 py_eq xs ys"
| "py_eq (PDict a) (PDict b) =
     (length a = length b \<and>
      list_all (\<lambda>(k, v). case map_of b k of None \<Rightarrow> False | Some w \<Rightarrow> py_eq v w) a)"
| "py_eq x y = (case (num_of x, num_of y) of (Some i, Some j) \<Rightarrow> i = j | _ \<Rightarrow> False)"

fun py_lt :: "pyval \<Rightarrow> pyval \<Rightarrow> error + bool"
  and lists_lt :: "pyval list \<Rightarrow> pyval list \<Rightarrow> error + bool" where
  "py_lt (PStr s) (PStr t) = Inr (str_lt s t)"
| "py_lt (PList xs) (PList ys) = lists_lt xs ys"
| "py_lt x y = (case (num_of x, num_of y) of
                  (Some i, Some j) \<Rightarrow> Inr (i < j)
                | _ \<Rightarrow> Inl TypeError)"
| "lists_lt [] [] = Inr False"
| "lists_lt [] (y # ys) = Inr True"
| "lists_lt (x # xs) [] = Inr False"
| "lists_lt (x # xs) (y # ys) = (if py_eq x y then lists_lt xs ys else py_lt x y)"

text \<open>\<open>x >= n\<close> for an integer \<open>n\<close>.\<close>

definition py_ge_int :: "pyval \<Rightarrow> int \<Rightarrow> error + bool" where
  "py_ge_int x n = (case num_of x of Some i \<Rightarrow> Inr (n \<le> i) | None \<Rightarrow> Inl TypeError)"

text \<open>
  \<open>sorted(xs, key=..., reverse=...)\<close> on the list of (key, element) pairs. The sort is
  stable and uses only \<open><\<close> on keys; a comparison that raises ends it. With
  \<open>reverse\<close> the list is reversed, sorted ascending and reversed again, as CPython
  does, which keeps equal keys in input order. On keys that are mutually comparable the
  result is the same for every stable sorting algorithm; here it is insertion from the
  right.
\<close>

fun insert_by_key :: "pyval \<times> 'a \<Rightarrow> (pyval \<times> 'a) list \<Rightarrow> error + (pyval \<times> 'a) list" where
  "insert_by_key x [] = Inr [x]"
| "insert_by_key x (y # ys) =
     then_do (py_lt (fst y) (fst x))
       (\<lambda>b. if b then then_do (insert_by_key x ys) (\<lambda>r. Inr (y # r))
            else Inr (x # y # ys))"

fun sort_pairs :: "(pyval \<times> 'a) list \<Rightarrow> error + (pyval \<times> 'a) list" where
  "sort_pairs [] = Inr []"
| "sort_pairs (x # xs) = then_do (sort_pairs xs) (insert_by_key x)"

definition py_sorted :: "(pyval \<times> 'a) list \<Rightarrow> bool \<Rightarrow> error + 'a list" where
  "py_sorted keyed reverse =
     (if reverse
      then then_do (sort_pairs (rev keyed)) (\<lambda>r. Inr (map snd (rev r)))
      else then_do (sort_pairs keyed) (\<lambda>r. Inr (map snd r)))"


section \<open>Data processor (title-search-duration-filter/data\_processor.py)\<close>

text \<open>\<open>int(statistics.get(key, 0))\<close>\<close>

definition count_of :: "unicode \<Rightarrow> pyval \<Rightarrow> string \<Rightarrow> error + int" where
  "count_of U statistics key = then_do (py_get statistics key (PInt 0)) (py_int U)"

text \<open>
  \<open>extract_video_info\<close>: the steps in the order of the source; the record is the
  dictionary the source builds, with its keys in the same order.
\<close>

definition extract_video_info :: "unicode \<Rightarrow> pyval \<Rightarrow> error + pyval" where
  "extract_video_info U video =
     then_do (py_get video ''snippet'' (PDict [])) (\<lambda>snippet.
     then_do (py_get video ''statistics'' (PDict [])) (\<lambda>statistics.
     then_do (py_get video ''contentDetails'' (PDict [])) (\<lambda>content_details.
     then_do (count_of U statistics ''viewCount'') (\<lambda>view_count.
     then_do (py_get content_details ''duration'' (PStr ''N/A'')) (\<lambda>duration_iso.
     then_do (parse_duration U duration_iso) (\<lambda>duration_seconds.
     then_do (format_duration duration_seconds) (\<lambda>duration_formatted.
     let is_short = is_youtube_short duration_seconds;
         video_type = get_video_type duration_seconds
     in
     then_do (py_get snippet ''tags'' (PList [])) (\<lambda>tags.
     then_do (if truthy tags then py_join '', '' tags else Inr ''No tags'') (\<lambda>tags_string.
     then_do (py_get snippet ''thumbnails'' (PDict [])) (\<lambda>thumbnails.
     then_do (py_get thumbnails ''high'' (PDict [])) (\<lambda>thumbnail_high.
     then_do (py_get thumbnail_high ''url'' (PStr [])) (\<lambda>thumbnail_url.
     then_do (py_get thumbnail_high ''width'' (PInt 0)) (\<lambda>thumbnail_width.
     then_do (py_get thumbnail_high ''height'' (PInt 0)) (\<lambda>thumbnail_height.
     let thumbnail_info = PDict [(''url'', thumbnail_url), (''width'', thumbnail_width),
                                 (''height'', thumbnail_height)];
         thumbnail_string = (if truthy thumbnail_url then thumbnail_url
                             else PStr ''No thumbnail'')
     in
     then_do (py_get snippet ''description'' (PStr [])) (\<lambda>full_description.
     then_do (py_get video ''id'' PNone) (\<lambda>video_id.
     then_do (py_get snippet ''title'' (PStr [])) (\<lambda>title.
     then_do (py_get snippet ''channelTitle'' (PStr [])) (\<lambda>channel.
     then_do (py_get snippet ''channelId'' (PStr [])) (\<lambda>channel_id.
     then_do (py_get snippet ''publishedAt'' (PStr [])) (\<lambda>published_at.
     then_do (py_slice_to full_description 500) (\<lambda>description_short.
     then_do (count_of U statistics ''likeCount'') (\<lambda>like_count.
     then_do (count_of U statistics ''commentCount'') (\<lambda>comment_count.
     then_do (py_str U video_id) (\<lambda>id_string.
     Inr (PDict
       [(''video_id'', video_id),
        (''title'', title),
        (''channel'', channel),
        (''channel_id'', channel_id),
        (''published_at'', published_at),
        (''description'', full_description),
        (''description_short'', description_short),
        (''view_count'', PInt view_count),
        (''like_count'', PInt like_count),
        (''comment_count'', PInt comment_count),
        (''duration'', PStr duration_formatted),
        (''duration_seconds'', PInt duration_seconds),
        (''is_short'', PBool is_short),
        (''video_type'', PStr video_type),
        (''tags'', PStr tags_string),
        (''tags_list'', tags),
        (''thumbnail_url'', thumbnail_string),
        (''thumbnail_object'', thumbnail_info),
        (''url'', PStr (''https://www.youtube.com/watch?v='' @ id_string))]
     )))))))))))))))))))))))))"

text \<open>The variant in general-search/data\_processor.py.\<close>

definition extract_video_info_general :: "unicode \<Rightarrow> pyval \<Rightarrow> error + pyval" where
  "extract_video_info_general U video =
     then_do (py_get video ''snippet'' (PDict [])) (\<lambda>snippet.
     then_do (py_get video ''statistics'' (PDict [])) (\<lambda>statistics.
     then_do (count_of U statistics ''viewCount'') (\<lambda>view_count.
     then_do (py_get video ''contentDetails'' (PDict [])) (\<lambda>content_details.
     then_do (py_get content_details ''duration'' (PStr ''N/A'')) (\<lambda>duration.
     then_do (py_get snippet ''tags'' (PList [])) (\<lambda>tags.
     then_do (if truthy tags then py_join '', '' tags else Inr ''No tags'') (\<lambda>tags_string.
     then_do (py_get video ''id'' PNone) (\<lambda>video_id.
     then_do (py_get snippet ''title'' (PStr [])) (\<lambda>title.
     then_do (py_get snippet ''channelTitle'' (PStr [])) (\<lambda>channel.
     then_do (py_get snippet ''channelId'' (PStr [])) (\<lambda>channel_id.
     then_do (py_get snippet ''publishedAt'' (PStr [])) (\<lambda>published_at.
     then_do (py_get snippet ''description'' (PStr [])) (\<lambda>full_description.
     then_do (py_slice_to full_description 500) (\<lambda>description.
     then_do (count_of U statistics ''likeCount'') (\<lambda>like_count.
     then_do (count_of U statistics ''commentCount'') (\<lambda>comment_count.
     then_do (py_str U video_id) (\<lambda>id_string.
     then_do (py_get snippet ''thumbnails'' (PDict [])) (\<lambda>thumbnails.
     then_do (py_get thumbnails ''high'' (PDict [])) (\<lambda>thumbnail_high.
     then_do (py_get thumbnail_high ''url'' (PStr [])) (\<lambda>thumbnail_url.
     Inr (PDict
       [(''video_id'', video_id),
        (''title'', title),
        (''channel'', channel),
        (''channel_id'', channel_id),
        (''published_at'', published_at),
        (''description'', description),
        (''view_count'', PInt view_count),
        (''like_count'', PInt like_count),
        (''comment_count'', PInt comment_count),
        (''duration'', duration),
        (''tags'', PStr tags_string),
        (''tags_list'', tags),
        (''url'', PStr (''https://www.youtube.com/watch?v='' @ id_string)),
        (''thumbnail_url'', thumbnail_url)]
     )))))))))))))))))))))"

text \<open>\<open>[v for v in videos if v.get('view_count', 0) >= min_views]\<close>\<close>

fun filter_by_views :: "pyval list \<Rightarrow> int \<Rightarrow> error + pyval list" where
  "filter_by_views [] min_views = Inr []"
| "filter_by_views (v # videos) min_views =
     then_do (py_get v ''view_count'' (PInt 0)) (\<lambda>view_count.
     then_do (py_ge_int view_count min_views) (\<lambda>keep.
     then_do (filter_by_views videos min_views) (\<lambda>rest.
     Inr (if keep then v # rest else rest))))"

text \<open>\<open>any(keyword in title for keyword in keywords)\<close>, which stops at the first hit.\<close>

fun any_keyword_in :: "string list \<Rightarrow> pyval \<Rightarrow> error + bool" where
  "any_keyword_in [] title = Inr False"
| "any_keyword_in (keyword # keywords) title =
     then_do (py_contains title keyword)
       (\<lambda>hit. if hit then Inr True else any_keyword_in keywords title)"

text \<open>
  The loop of \<open>filter_by_keywords_in_title\<close>. When matching is not case sensitive the
  loop body rebinds \<open>keywords\<close> to the lowercased list, so the list is threaded through
  the iterations, with \<open>filtered\<close>.
\<close>

fun keyword_loop ::
  "unicode \<Rightarrow> pyval list \<Rightarrow> string list \<Rightarrow> bool \<Rightarrow> pyval list \<Rightarrow> error + pyval list"
  where
  "keyword_loop U [] keywords case_sensitive filtered = Inr filtered"
| "keyword_loop U (video # videos) keywords case_sensitive filtered =
     then_do (py_get video ''title'' (PStr [])) (\<lambda>title.
     then_do (if \<not> case_sensitive then py_lower U title else Inr title) (\<lambda>title'.
     let keywords' = (if \<not> case_sensitive then map (str_lower U) keywords else keywords)
     in then_do (any_keyword_in keywords' title') (\<lambda>hit.
        keyword_loop U videos keywords' case_sensitive
          (if hit then filtered @ [video] else filtered))))"

definition filter_by_keywords_in_title ::
  "unicode \<Rightarrow> pyval list \<Rightarrow> string list \<Rightarrow> bool \<Rightarrow> error + pyval list" where
  "filter_by_keywords_in_title U videos keywords case_sensitive =
     keyword_loop U videos keywords case_sensitive []"

text \<open>\<open>sorted(videos, key=lambda x: x.get(sort_by, 0), reverse=descending)\<close>\<close>

definition sort_videos :: "pyval list \<Rightarrow> string \<Rightarrow> bool \<Rightarrow> error + pyval list" where
  "sort_videos videos sort_by descending =
     then_do (map_raising (\<lambda>x. py_get x sort_by (PInt 0)) videos)
       (\<lambda>keys. py_sorted (zip keys videos) descending)"

text \<open>
  \<open>process_video_batch\<close>; \<open>filter_keywords\<close> is \<open>None\<close> or a list, and the keyword
  filter runs only for a non-empty list. The calls without further arguments take the
  defaults of the callee: case-insensitive matching, sorting by \<open>view_count\<close>, descending.
\<close>

definition process_video_batch ::
  "unicode \<Rightarrow> pyval list \<Rightarrow> int \<Rightarrow> string list option \<Rightarrow> error + pyval list" where
  "process_video_batch U raw_videos min_views filter_keywords =
     then_do (map_raising (extract_video_info U) raw_videos) (\<lambda>processed.
     then_do (filter_by_views processed min_views) (\<lambda>processed.
     then_do (case filter_keywords of
                None \<Rightarrow> Inr processed
              | Some keywords \<Rightarrow>
                  if keywords \<noteq> []
                  then filter_by_keywords_in_title U processed keywords False
                  else Inr processed) (\<lambda>processed.
     sort_videos processed ''view_count'' True)))"

text \<open>A raw item with nothing but an identifier and a view count, for the scenarios.\<close>

definition raw_item :: "string \<Rightarrow> string \<Rightarrow> pyval" where
  "raw_item ident views =
     PDict [(''id'', PStr ident), (''statistics'', PDict [(''viewCount'', PStr views)])]"

definition titled :: "string \<Rightarrow> pyval" where
  "titled t = PDict [(''title'', PStr t)]"

text \<open>The title of a record, when the record is a dictionary whose title is a string.\<close>

fun string_title :: "pyval \<Rightarrow> string option" where
  "string_title (PDict d) = (case dict_get d ''title'' (PStr []) of PStr s \<Rightarrow> Some s | _ \<Rightarrow> None)"
| "string_title _ = None"

text \<open>What is compared: the string itself, or its lowercased form.\<close>

definition folded :: "unicode \<Rightarrow> bool \<Rightarrow> string \<Rightarrow> string" where
  "folded U case_sensitive s = (if case_sensitive then s else str_lower U s)"

text \<open>
  A record is a dictionary; its sort key for a field name is \<open>x.get(sort_by, 0)\<close>.
\<close>

fun is_record :: "pyval \<Rightarrow> bool" where
  "is_record (PDict d) = True"
| "is_record _ = False"

fun field :: "string \<Rightarrow> pyval \<Rightarrow> pyval" where
  "field f (PDict d) = dict_get d f (PInt 0)"
| "field f _ = PInt 0"

fun has_field :: "string \<Rightarrow> pyval \<Rightarrow> bool" where
  "has_field f (PDict d) = (map_of d f \<noteq> None)"
| "has_field f _ = False"

text \<open>The position of a number, and of a string, in the order Python compares them by.\<close>

definition num_rank :: "pyval \<Rightarrow> int" where
  "num_rank v = (case num_of v of Some i \<Rightarrow> i | None \<Rightarrow> 0)"

fun is_str :: "pyval \<Rightarrow> bool" where
  "is_str (PStr s) = True"
| "is_str _ = False"

fun str_rank :: "pyval \<Rightarrow> nat list" where
  "str_rank (PStr s) = map of_char s"
| "str_rank _ = []"

text \<open>Python's stable sort on keys ranked by \<open>rank\<close>, ascending or with \<open>reverse\<close>.\<close>

definition stable_sorted :: "('a \<Rightarrow> 'r::linorder) \<Rightarrow> bool \<Rightarrow> 'a list \<Rightarrow> 'a list" where
  "stable_sorted rank reverse xs =
     (if reverse then rev (sort_key rank (rev xs)) else sort_key rank xs)"

text \<open>The view count of a record, as a number.\<close>

definition views :: "pyval \<Rightarrow> int" where
  "views r = num_rank (field ''view_count'' r)"

text \<open>The keyword test of the pipeline: case-insensitive, on the record's title.\<close>

definition title_matches :: "unicode \<Rightarrow> string list \<Rightarrow> pyval \<Rightarrow> bool" where
  "title_matches U keywords r =
     (\<exists>k \<in> set keywords. sublist (str_lower U k) (str_lower U (the (string_title r))))"

text \<open>A raw item with an identifier, a title and a view count, and three of them.\<close>

definition raw_titled :: "string \<Rightarrow> string \<Rightarrow> string \<Rightarrow> pyval" where
  "raw_titled ident title view_count =
     PDict [(''id'', PStr ident),
            (''snippet'', PDict [(''title'', PStr title)]),
            (''statistics'', PDict [(''viewCount'', PStr view_count)])]"

definition three_raw :: "pyval list" where
  "three_raw = [raw_titled ''a'' ''Space Walk'' ''20000'',
                raw_titled ''b'' ''Cooking'' ''30000'',
                raw_titled ''c'' ''Deep SPACE'' ''5000'']"

definition three_records :: "unicode \<Rightarrow> pyval list" where
  "three_records U =
     (case map_raising (extract_video_info U) three_raw of Inr rs \<Rightarrow> rs | Inl e \<Rightarrow> [])"

text \<open>
  A raw item whose sections have the types the API documents: \<open>snippet\<close>,
  \<open>statistics\<close> and \<open>contentDetails\<close> are dictionaries or absent; the counts are
  absent or accepted by \<open>int()\<close>; the duration is absent, empty or an ASCII string of
  at most 4000 characters; the tags are a list of strings; the description is a string
  or a list; \<open>thumbnails\<close> and its \<open>high\<close> entry are dictionaries or absent; the
  identifier is a string or absent.
\<close>

fun is_dict :: "pyval \<Rightarrow> bool" where
  "is_dict (PDict d) = True"
| "is_dict _ = False"

definition is_count :: "unicode \<Rightarrow> pyval \<Rightarrow> bool" where
  "is_count U v = (case py_int U v of Inr n \<Rightarrow> True | Inl e \<Rightarrow> False)"

fun string_list :: "pyval \<Rightarrow> bool" where
  "string_list (PList xs) = list_all is_str xs"
| "string_list _ = False"

fun sliceable :: "pyval \<Rightarrow> bool" where
  "sliceable (PStr s) = True"
| "sliceable (PList xs) = True"
| "sliceable _ = False"

fun plain_duration :: "pyval \<Rightarrow> bool" where
  "plain_duration (PStr s) = (is_ascii s \<and> length s \<le> 4000)"
| "plain_duration v = (\<not> truthy v)"

fun plain_id :: "pyval \<Rightarrow> bool" where
  "plain_id (PStr s) = True"
| "plain_id PNone = True"
| "plain_id _ = False"

definition well_typed_snippet :: "pyval \<Rightarrow> bool" where
  "well_typed_snippet snippet =
     (case snippet of
        PDict s \<Rightarrow>
          string_list (dict_get s ''tags'' (PList []))
          \<and> sliceable (dict_get s ''description'' (PStr []))
          \<and> (case dict_get s ''thumbnails'' (PDict []) of
                PDict th \<Rightarrow> is_dict (dict_get th ''high'' (PDict []))
              | _ \<Rightarrow> False)
      | _ \<Rightarrow> False)"

definition well_typed_statistics :: "unicode \<Rightarrow> pyval \<Rightarrow> bool" where
  "well_typed_statistics U statistics =
     (case statistics of
        PDict st \<Rightarrow>
          is_count U (dict_get st ''viewCount'' (PInt 0))
          \<and> is_count U (dict_get st ''likeCount'' (PInt 0))
          \<and> is_count U (dict_get st ''commentCount'' (PInt 0))
      | _ \<Rightarrow> False)"

definition well_typed_content :: "pyval \<Rightarrow> bool" where
  "well_typed_content content_details =
     (case content_details of
        PDict cd \<Rightarrow> plain_duration (dict_get cd ''duration'' (PStr ''N/A''))
      | _ \<Rightarrow> False)"

definition well_typed_raw :: "unicode \<Rightarrow> pyval \<Rightarrow> bool" where
  "well_typed_raw U video =
     (case video of
        PDict d \<Rightarrow>
          well_typed_snippet (dict_get d ''snippet'' (PDict []))
          \<and> well_typed_statistics U (dict_get d ''statistics'' (PDict []))
          \<and> well_typed_content (dict_get d ''contentDetails'' (PDict []))
          \<and> plain_id (dict_get d ''id'' PNone)
      | _ \<Rightarrow> False)"

text \<open>
  The record of a raw item that has none of the three sections; \<open>ident\<close> is the
  item's \<open>id\<close> (None when absent) and \<open>id_string\<close> is \<open>str(id)\<close>.
\<close>

definition default_record :: "pyval \<Rightarrow> string \<Rightarrow> pyval" where
  "default_record ident id_string =
     PDict
       [(''video_id'', ident),
        (''title'', PStr []),
        (''channel'', PStr []),
        (''channel_id'', PStr []),
        (''published_at'', PStr []),
        (''description'', PStr []),
        (''description_short'', PStr []),
        (''view_count'', PInt 0),
        (''like_count'', PInt 0),
        (''comment_count'', PInt 0),
        (''duration'', PStr ''0:00''),
        (''duration_seconds'', PInt 0),
        (''is_short'', PBool False),
        (''video_type'', PStr ''Unknown''),
        (''tags'', PStr ''No tags''),
        (''tags_list'', PList []),
        (''thumbnail_url'', PStr ''No thumbnail''),
        (''thumbnail_object'',
         PDict [(''url'', PStr []), (''width'', PInt 0), (''height'', PInt 0)]),
        (''url'', PStr (''https://www.youtube.com/watch?v='' @ id_string))]"

definition default_record_general :: "pyval \<Rightarrow> string \<Rightarrow> pyval" where
  "default_record_general ident id_string =
     PDict
       [(''video_id'', ident),
        (''title'', PStr []),
        (''channel'', PStr []),
        (''channel_id'', PStr []),
        (''published_at'', PStr []),
        (''description'', PStr []),
        (''view_count'', PInt 0),
        (''like_count'', PInt 0),
        (''comment_count'', PInt 0),
        (''duration'', PStr ''N/A''),
        (''tags'', PStr ''No tags''),
        (''tags_list'', PList []),
        (''url'', PStr (''https://www.youtube.com/watch?v='' @ id_string)),
        (''thumbnail_url'', PStr [])]"


text \<open>
  The record \<open>extract_video_info\<close> builds from the parts of a raw item: the item's
  \<open>id\<close> and \<open>str(id)\<close>, the snippet \<open>s\<close>, the \<open>high\<close> thumbnail \<open>hi\<close>, the
  three counts, the duration in seconds and formatted, the joined tags and the
  shortened description. The second is the record of the general-search variant,
  which keeps the duration as it came (\<open>cd\<close> is the \<open>contentDetails\<close> section).
\<close>

definition built_record ::
  "pyval \<Rightarrow> string \<Rightarrow> (string \<times> pyval) list \<Rightarrow> (string \<times> pyval) list
   \<Rightarrow> int \<Rightarrow> int \<Rightarrow> int \<Rightarrow> int \<Rightarrow> string \<Rightarrow> string \<Rightarrow> pyval \<Rightarrow> pyval" where
  "built_record ident id_string s hi view_count like_count comment_count seconds shown
     tags_string description_short =
     PDict
       [(''video_id'', ident),
        (''title'', dict_get s ''title'' (PStr [])),
        (''channel'', dict_get s ''channelTitle'' (PStr [])),
        (''channel_id'', dict_get s ''channelId'' (PStr [])),
        (''published_at'', dict_get s ''publishedAt'' (PStr [])),
        (''description'', dict_get s ''description'' (PStr [])),
        (''description_short'', description_short),
        (''view_count'', PInt view_count),
        (''like_count'', PInt like_count),
        (''comment_count'', PInt comment_count),
        (''duration'', PStr shown),
        (''duration_seconds'', PInt seconds),
        (''is_short'', PBool (0 < seconds \<and> seconds \<le> 60)),
        (''video_type'', PStr (get_video_type seconds)),
        (''tags'', PStr tags_string),
        (''tags_list'', dict_get s ''tags'' (PList [])),
        (''thumbnail_url'',
         if truthy (dict_get hi ''url'' (PStr [])) then dict_get hi ''url'' (PStr [])
         else PStr ''No thumbnail''),
        (''thumbnail_object'',
         PDict [(''url'', dict_get hi ''url'' (PStr [])),
                (''width'', dict_get hi ''width'' (PInt 0)),
                (''height'', dict_get hi ''height'' (PInt 0))]),
        (''url'', PStr (''https://www.youtube.com/watch?v='' @ id_string))]"

definition built_record_general ::
  "pyval \<Rightarrow> string \<Rightarrow> (string \<times> pyval) list \<Rightarrow> (string \<times> pyval) list
   \<Rightarrow> (string \<times> pyval) list \<Rightarrow> int \<Rightarrow> int \<Rightarrow> int \<Rightarrow> string \<Rightarrow> pyval \<Rightarrow> pyval" where
  "built_record_general ident id_string s hi cd view_count like_count comment_count
     tags_string description_short =
     PDict
       [(''video_id'', ident),
        (''title'', dict_get s ''title'' (PStr [])),
        (''channel'', dict_get s ''channelTitle'' (PStr [])),
        (''channel_id'', dict_get s ''channelId'' (PStr [])),
        (''published_at'', dict_get s ''publishedAt'' (PStr [])),
        (''description'', description_short),
        (''view_count'', PInt view_count),
        (''like_count'', PInt like_count),
        (''comment_count'', PInt comment_count),
        (''duration'', dict_get cd ''duration'' (PStr ''N/A'')),
        (''tags'', PStr tags_string),
        (''tags_list'', dict_get s ''tags'' (PList [])),
        (''url'', PStr (''https://www.youtube.com/watch?v='' @ id_string)),
        (''thumbnail_url'', dict_get hi ''url'' (PStr []))]"


text \<open>A raw item with all three sections, for the scenarios.\<close>

definition full_item :: pyval where
  "full_item =
     PDict [(''id'', PStr ''a''),
            (''snippet'', PDict [(''title'', PStr ''Space Walk'')]),
            (''statistics'',
             PDict [(''viewCount'', PStr ''20000''), (''likeCount'', PStr ''7''),
                    (''commentCount'', PInt 3)]),
            (''contentDetails'', PDict [(''duration'', PStr ''PT1M5S'')])]"


section \<open>Facts about the duration codec\<close>

lemma digit_cases:
  assumes "n < 10" and "P 0" "P 1" "P 2" "P 3" "P 4" "P 5" "P 6" "P 7" "P 8" "P 9"
  shows "P (n::nat)"
proof -
  from assms(1) have "n \<in> set [0..<10]" by simp
  also have "[0..<10] = [0, 1, 2, 3, 4, 5, 6, 7, 8, 9 :: nat]" by (simp add: upt_rec)
  finally show ?thesis using assms(2-) by auto
qed

lemma digit_char_is_digit: "n < 10 \<Longrightarrow> is_digit (digit_char n)"
  by (rule digit_cases [of n]) (simp_all add: is_digit_def digit_char_def)

lemma digit_val_digit_char: "n < 10 \<Longrightarrow> digit_val (digit_char n) = int n"
  by (rule digit_cases [of n]) (simp_all add: digit_val_def digit_char_def)

lemma dec_digits: "c \<in> set (dec n) \<Longrightarrow> is_digit c"
proof (induction n arbitrary: c rule: dec.induct)
  case (1 n)
  show ?case
  proof (cases "n < 10")
    case True
    with "1.prems" show ?thesis by (simp add: dec.simps [of n] digit_char_is_digit)
  next
    case False
    with "1.prems" "1.IH" show ?thesis
      by (auto simp: dec.simps [of n] digit_char_is_digit)
  qed
qed

lemma dec_nonempty: "dec n \<noteq> []"
  by (simp add: dec.simps [of n])

lemma int_of_digits_snoc: "int_of_digits (ds @ [c]) = 10 * int_of_digits ds + digit_val c"
  by (simp add: int_of_digits_def)

lemma int_of_digits_dec: "int_of_digits (dec n) = int n"
proof (induction n rule: dec.induct)
  case (1 n)
  show ?case
  proof (cases "n < 10")
    case True
    then show ?thesis by (simp add: dec.simps [of n] int_of_digits_def digit_val_digit_char)
  next
    case False
    have "10 * int (n div 10) + int (n mod 10) = int n" by arith
    with False "1.IH" show ?thesis
      by (simp add: dec.simps [of n] int_of_digits_snoc digit_val_digit_char)
  qed
qed

lemma replace_PT_id: "CHR ''P'' \<notin> set s \<Longrightarrow> replace_PT s = s"
  by (induction s rule: replace_PT.induct) auto

lemma re_search_skip:
  "\<forall>c \<in> set ds. is_digit c \<Longrightarrow> \<not> is_digit e \<Longrightarrow> e \<noteq> x \<Longrightarrow>
   re_search x (ds @ e # rest) = re_search x rest"
proof (induction ds)
  case Nil
  then show ?case by (simp add: match_at_def)
next
  case (Cons c cs)
  then have "match_at x ((c # cs) @ e # rest) = None"
    by (simp add: match_at_def takeWhile_append1 dropWhile_append3 Let_def takeWhile_tail dropWhile_append2)
  with Cons show ?case by simp
qed

lemma re_search_hit:
  "ds \<noteq> [] \<Longrightarrow> \<forall>c \<in> set ds. is_digit c \<Longrightarrow> \<not> is_digit x \<Longrightarrow>
   re_search x (ds @ x # rest) = Some ds"
proof (cases ds)
  case Nil
  assume "ds \<noteq> []" with Nil show ?thesis by simp
next
  case (Cons c cs)
  assume d: "\<forall>c \<in> set ds. is_digit c" and x: "\<not> is_digit x"
  then have "match_at x (ds @ x # rest) = Some ds"
    using Cons by (simp add: match_at_def Let_def takeWhile_tail dropWhile_append2)
  with Cons show ?thesis by simp
qed


lemma dec_all_digits: "\<forall>c \<in> set (dec n). is_digit c"
  using dec_digits by blast

lemma P_not_digit: "is_digit c \<Longrightarrow> c \<noteq> CHR ''P''"
  by (auto simp: is_digit_def)

lemma P_notin_dec: "CHR ''P'' \<notin> set (dec n)"
  using dec_digits P_not_digit by blast

lemma designator_not_digit:
  "\<not> is_digit CHR ''H''" "\<not> is_digit CHR ''M''" "\<not> is_digit CHR ''S''"
  by (simp_all add: is_digit_def)

lemma set_replace_PT: "set (replace_PT s) \<subseteq> set s"
  by (induction s rule: replace_PT.induct) auto

lemma match_at_no_digit: "\<forall>c \<in> set s. \<not> is_digit c \<Longrightarrow> match_at x s = None"
  by (cases s) (simp_all add: match_at_def)

lemma re_search_no_digit: "\<forall>c \<in> set s. \<not> is_digit c \<Longrightarrow> re_search x s = None"
  by (induction s) (simp_all add: match_at_no_digit)

lemma is_ascii_Nil [simp]: "is_ascii []"
  by (simp add: is_ascii_def)

lemma is_ascii_Cons [simp]: "is_ascii (c # cs) \<longleftrightarrow> of_char c < (128 :: nat) \<and> is_ascii cs"
  by (simp add: is_ascii_def)

lemma is_ascii_append [simp]: "is_ascii (xs @ ys) \<longleftrightarrow> is_ascii xs \<and> is_ascii ys"
  by (simp add: is_ascii_def)

lemma is_ascii_subset: "set t \<subseteq> set s \<Longrightarrow> is_ascii s \<Longrightarrow> is_ascii t"
  by (auto simp: is_ascii_def list_all_iff)

lemma digit_ascii: "is_digit c \<Longrightarrow> of_char c < (128 :: nat)"
  by (auto simp: is_digit_def)

lemma digits_ascii: "\<forall>c \<in> set ds. is_digit c \<Longrightarrow> is_ascii ds"
  by (simp add: is_ascii_def list_all_iff digit_ascii)

lemma is_ascii_dec [simp]: "is_ascii (dec n)"
  by (simp add: digits_ascii dec_all_digits)

lemma is_ascii_replace_PT: "is_ascii s \<Longrightarrow> is_ascii (replace_PT s)"
  using set_replace_PT by (rule is_ascii_subset)

lemma length_replace_PT: "length (replace_PT s) \<le> length s"
  by (induction s rule: replace_PT.induct) auto

lemma digit_not_space: "is_digit c \<Longrightarrow> \<not> is_space c"
  by (auto simp: is_digit_def is_space_def)

lemma dropWhile_none: "\<forall>x \<in> set xs. \<not> P x \<Longrightarrow> dropWhile P xs = xs"
  by (cases xs) simp_all

lemma strip_digits: "\<forall>c \<in> set ds. is_digit c \<Longrightarrow> strip ds = ds"
  by (simp add: strip_def dropWhile_none digit_not_space)

lemma plain_digits_digits:
  "ds \<noteq> [] \<Longrightarrow> \<forall>c \<in> set ds. is_digit c \<Longrightarrow> plain_digits ds = Some ds"
proof (induction ds rule: plain_digits.induct)
  case 1
  then show ?case by simp
next
  case (2 c)
  then show ?case by simp
next
  case (3 c d cs)
  from "3.prems" have "is_digit d" by simp
  then have "d \<noteq> CHR ''_''" by (auto simp: is_digit_def)
  with 3 show ?case by simp
qed

lemma int_of_string_digits:
  assumes "ds \<noteq> []" and "\<forall>c \<in> set ds. is_digit c"
  shows "int_of_string U ds =
           (if max_str_digits < length ds then Inl ValueError else Inr (int_of_digits ds))"
proof -
  obtain c cs where c: "ds = c # cs" using assms(1) by (cases ds) auto
  then have "is_digit c" using assms(2) by simp
  then have "c \<noteq> CHR ''-''" "c \<noteq> CHR ''+''" by (auto simp: is_digit_def)
  moreover have "plain_digits (c # cs) = Some (c # cs)"
    using plain_digits_digits [OF assms] c by simp
  moreover have "strip ds = ds"
    using assms(2) by (rule strip_digits)
  moreover have "is_ascii ds"
    using assms(2) by (rule digits_ascii)
  ultimately show ?thesis
    by (simp add: int_of_string_def c del: is_ascii_Cons)
qed

lemma int_of_string_dec:
  "int_of_string U (dec n) =
     (if max_str_digits < length (dec n) then Inl ValueError else Inr (int n))"
  using int_of_string_digits [of "dec n" U]
  by (simp add: dec_nonempty dec_all_digits int_of_digits_dec)

lemma digit_val_range: "is_digit c \<Longrightarrow> 0 \<le> digit_val c \<and> digit_val c \<le> 9"
  by (auto simp: is_digit_def digit_val_def)

lemma int_of_digits_bounds:
  "\<forall>c \<in> set ds. is_digit c \<Longrightarrow> 0 \<le> int_of_digits ds \<and> int_of_digits ds < 10 ^ length ds"
proof (induction ds rule: rev_induct)
  case Nil
  then show ?case by (simp add: int_of_digits_def)
next
  case (snoc c ds)
  then have ih: "0 \<le> int_of_digits ds" "int_of_digits ds < 10 ^ length ds" by simp_all
  from snoc.prems have "0 \<le> digit_val c" "digit_val c \<le> 9"
    using digit_val_range [of c] by simp_all
  moreover from ih(2) have "int_of_digits ds + 1 \<le> 10 ^ length ds" by simp
  then have "10 * (int_of_digits ds + 1) \<le> 10 * 10 ^ length ds" by simp
  ultimately show ?case
    using ih(1) by (simp add: int_of_digits_snoc)
qed

lemma dec_length_le: "n < 10 ^ k \<Longrightarrow> 0 < k \<Longrightarrow> length (dec n) \<le> k"
proof (induction n arbitrary: k rule: dec.induct)
  case (1 n)
  show ?case
  proof (cases "n < 10")
    case True
    with "1.prems" show ?thesis by (simp add: dec.simps [of n])
  next
    case False
    obtain j where j: "k = Suc j" using "1.prems"(2) by (cases k) auto
    have "0 < j"
    proof (rule ccontr)
      assume "\<not> 0 < j"
      with j "1.prems"(1) False show False by simp
    qed
    moreover have "n div 10 < 10 ^ j"
      using "1.prems"(1) j by (simp add: less_mult_imp_div_less mult.commute)
    ultimately have "length (dec (n div 10)) \<le> j"
      using False by (intro "1.IH") simp_all
    with False j show ?thesis by (simp add: dec.simps [of n])
  qed
qed

lemma dec_power_length: "length (dec (10 ^ k)) = Suc k"
proof (induction k)
  case 0
  show ?case by (simp add: dec.simps [of "Suc 0"])
next
  case (Suc k)
  have "\<not> (10 :: nat) ^ Suc k < 10" by simp
  moreover have "(10 :: nat) ^ Suc k div 10 = 10 ^ k" by simp
  ultimately show ?case
    using Suc by (simp add: dec.simps [of "10 ^ Suc k"] del: power_Suc)
qed

lemma match_at_Some:
  "match_at x s = Some g \<Longrightarrow> g \<noteq> [] \<and> (\<forall>c \<in> set g. is_digit c) \<and> length g \<le> length s"
  by (auto simp: match_at_def Let_def length_takeWhile_le split: if_splits
      dest: set_takeWhileD)

lemma re_search_Some:
  "re_search x s = Some g \<Longrightarrow> g \<noteq> [] \<and> (\<forall>c \<in> set g. is_digit c) \<and> length g \<le> length s"
proof (induction s)
  case Nil
  then show ?case by simp
next
  case (Cons c cs)
  show ?case
  proof (cases "match_at x (c # cs)")
    case None
    with Cons show ?thesis by auto
  next
    case (Some g')
    with Cons.prems have "g' = g" by simp
    with Some match_at_Some [of x "c # cs" g] show ?thesis by simp
  qed
qed

lemma component_ascii:
  "is_ascii s \<Longrightarrow>
   component U x s =
     (case re_search x s of
        None \<Rightarrow> Inr 0
      | Some g \<Rightarrow> if max_str_digits < length g then Inl ValueError
                  else Inr (int_of_digits g))"
  using re_search_Some [of x s]
  by (auto simp: component_def search_def int_of_string_digits split: option.splits)

lemma component_short:
  assumes "is_ascii s" and "length s \<le> max_str_digits"
  shows "\<exists>n. component U x s = Inr n \<and> 0 \<le> n \<and> n < 10 ^ length s"
proof (cases "re_search x s")
  case None
  with assms(1) show ?thesis by (simp add: component_ascii)
next
  case (Some g)
  from re_search_Some [OF Some] have g: "\<forall>c \<in> set g. is_digit c" "length g \<le> length s"
    by simp_all
  from int_of_digits_bounds [OF g(1)]
  have b: "0 \<le> int_of_digits g" "int_of_digits g < 10 ^ length g" by simp_all
  have "(10 :: int) ^ length g \<le> 10 ^ length s"
    using g(2) by (intro power_increasing) simp_all
  with b(2) have "int_of_digits g < 10 ^ length s" by linarith
  with b(1) Some assms g(2) show ?thesis
    by (simp add: component_ascii)
qed

lemma component_no_digit:
  "is_ascii s \<Longrightarrow> \<forall>c \<in> set s. \<not> is_digit c \<Longrightarrow> component U x (replace_PT s) = Inr 0"
proof -
  assume a: "is_ascii s" and "\<forall>c \<in> set s. \<not> is_digit c"
  with set_replace_PT [of s] have "\<forall>c \<in> set (replace_PT s). \<not> is_digit c" by blast
  then show ?thesis
    using a by (simp add: component_ascii is_ascii_replace_PT re_search_no_digit)
qed

lemma replace_PT_token: "replace_PT (duration_token h m s) = token_body h m s"
proof -
  have "CHR ''P'' \<notin> set (token_body h m s)"
    by (auto simp: token_body_def P_notin_dec split: option.splits)
  then have "replace_PT (token_body h m s) = token_body h m s"
    by (rule replace_PT_id)
  then show ?thesis
    by (simp add: duration_token_def)
qed

lemma is_ascii_token_body: "is_ascii (token_body h m s)"
  by (simp add: token_body_def split: option.splits)

lemmas search_rules = re_search_skip re_search_hit dec_all_digits dec_nonempty
  designator_not_digit int_of_digits_dec

lemma re_search_H:
  "re_search CHR ''H'' (token_body h m s) = map_option dec h"
  by (cases h; cases m; cases s) (simp_all add: token_body_def search_rules)

lemma re_search_M:
  "re_search CHR ''M'' (token_body h m s) = map_option dec m"
  by (cases h; cases m; cases s) (simp_all add: token_body_def search_rules)

lemma re_search_S:
  "re_search CHR ''S'' (token_body h m s) = map_option dec s"
  by (cases h; cases m; cases s) (simp_all add: token_body_def search_rules)

lemma component_dec:
  "is_ascii t \<Longrightarrow> re_search x t = map_option dec c \<Longrightarrow>
   component U x t = (if fits c then Inr (or_zero c) else Inl ValueError)"
  by (cases c) (auto simp: component_ascii or_zero_def int_of_digits_dec)

lemma token_not_null: "duration_token h m s \<noteq> [] \<and> duration_token h m s \<noteq> ''N/A''"
  by (simp add: duration_token_def)

lemma parse_duration_token:
  "fits h \<Longrightarrow> fits m \<Longrightarrow> fits s \<Longrightarrow>
   parse_duration U (PStr (duration_token h m s)) =
     Inr (or_zero h * 3600 + or_zero m * 60 + or_zero s)"
  using token_not_null [of h m s]
  by (simp add: replace_PT_token then_do_def
      component_dec [OF is_ascii_token_body re_search_H]
      component_dec [OF is_ascii_token_body re_search_M]
      component_dec [OF is_ascii_token_body re_search_S])

lemma parse_duration_too_long:
  "\<not> fits h \<Longrightarrow> parse_duration U (PStr (duration_token h m s)) = Inl ValueError"
  using token_not_null [of h m s]
  by (simp add: replace_PT_token then_do_def
      component_dec [OF is_ascii_token_body re_search_H])

lemma parse_duration_no_digit:
  "is_ascii t \<Longrightarrow> \<forall>c \<in> set t. \<not> is_digit c \<Longrightarrow> parse_duration U (PStr t) = Inr 0"
  by (simp add: component_no_digit then_do_def)

lemma parse_duration_short:
  assumes "is_ascii t" and "length t \<le> max_str_digits"
  shows "\<exists>n. parse_duration U (PStr t) = Inr n \<and> 0 \<le> n \<and> n < 3661 * 10 ^ length t"
proof -
  let ?r = "replace_PT t"
  have a: "is_ascii ?r" using assms(1) by (rule is_ascii_replace_PT)
  have l: "length ?r \<le> length t" by (rule length_replace_PT)
  then have l': "length ?r \<le> max_str_digits" using assms(2) by simp
  have p: "(10 :: int) ^ length ?r \<le> 10 ^ length t"
    using l by (intro power_increasing) simp_all
  from component_short [OF a l', of U "CHR ''H''"] obtain hh where
    hh: "component U CHR ''H'' ?r = Inr hh" "0 \<le> hh" "hh < 10 ^ length ?r" by blast
  from component_short [OF a l', of U "CHR ''M''"] obtain mm where
    mm: "component U CHR ''M'' ?r = Inr mm" "0 \<le> mm" "mm < 10 ^ length ?r" by blast
  from component_short [OF a l', of U "CHR ''S''"] obtain ss where
    ss: "component U CHR ''S'' ?r = Inr ss" "0 \<le> ss" "ss < 10 ^ length ?r" by blast
  have "0 \<le> hh * 3600 + mm * 60 + ss" using hh(2) mm(2) ss(2) by simp
  moreover have "hh * 3600 + mm * 60 + ss < 3661 * 10 ^ length t"
    using hh(3) mm(3) ss(3) p by linarith
  moreover have "(0 :: int) < 3661 * 10 ^ length t" by simp
  ultimately show ?thesis
    using hh(1) mm(1) ss(1) by (auto simp: then_do_def Let_def)
qed

lemma format_duration_accepts:
  assumes "0 \<le> n" and "n < 3661 * 10 ^ k" and "k \<le> 4000"
  shows "\<exists>f. format_duration n = Inr f"
proof -
  have "n div 3600 < 2 * 10 ^ k" using assms(1,2) by simp
  also have "\<dots> \<le> 10 ^ Suc k" by simp
  finally have "n div 3600 < 10 ^ Suc k" .
  moreover have "0 \<le> n div 3600" using assms(1) by simp
  ultimately have "nat (n div 3600) < 10 ^ Suc k"
    by (simp add: nat_less_iff)
  then have "length (dec (nat (n div 3600))) \<le> Suc k"
    by (rule dec_length_le) simp
  with assms(3) have "\<not> max_str_digits < length (dec (nat (n div 3600)))"
    by (simp add: max_str_digits_def)
  moreover have "\<bar>n div 3600\<bar> = n div 3600"
    using \<open>0 \<le> n div 3600\<close> by simp
  ultimately show ?thesis
    by (simp add: format_duration_def str_of_int_def then_do_def Let_def)
qed

section \<open>Facts about the pagination loop\<close>




lemma length_stubs: "length (stubs a n) = n"
  by (simp add: stubs_def)


lemma search_loop_done:
  "\<not> int (length all) < m \<Longrightarrow> search_loop fuel cl req m h all tok = Some (h, all)"
  by (cases fuel) simp_all




section \<open>Facts about batching\<close>

lemma video_ids_length: "video_ids xs = Inr ids \<Longrightarrow> length ids = length xs"
  by (induction xs arbitrary: ids) (auto split: sum.splits)

lemma video_ids_take: "video_ids xs = Inr ids \<Longrightarrow> video_ids (take n xs) = Inr (take n ids)"
proof (induction xs arbitrary: ids n)
  case Nil
  then show ?case by simp
next
  case (Cons x xs)
  then show ?case by (cases n) (auto split: sum.splits)
qed

lemma video_ids_drop: "video_ids xs = Inr ids \<Longrightarrow> video_ids (drop n xs) = Inr (drop n ids)"
proof (induction xs arbitrary: ids n)
  case Nil
  then show ?case by simp
next
  case (Cons x xs)
  then show ?case by (cases n) (auto split: sum.splits)
qed

lemma batches_Nil: "batches n [] = []"
  by (simp add: batches.simps)

lemma batches_step: "0 < n \<Longrightarrow> xs \<noteq> [] \<Longrightarrow> batches n xs = take n xs # batches n (drop n xs)"
  by (subst batches.simps) simp

lemma concat_batches: "0 < n \<Longrightarrow> concat (batches n xs) = xs"
proof (induction n xs rule: batches.induct)
  case (1 n xs)
  show ?case
  proof (cases "xs = []")
    case True
    then show ?thesis by (simp add: batches_Nil)
  next
    case False
    with 1 show ?thesis by (simp add: batches_step)
  qed
qed

lemma batches_sizes: "0 < n \<Longrightarrow> b \<in> set (batches n xs) \<Longrightarrow> 0 < length b \<and> length b \<le> n"
proof (induction n xs rule: batches.induct)
  case (1 n xs)
  show ?case
  proof (cases "xs = []")
    case True
    with "1.prems" show ?thesis by (simp add: batches_Nil)
  next
    case False
    with 1 show ?thesis by (auto simp: batches_step)
  qed
qed

lemma batches_full: "0 < n \<Longrightarrow> b \<in> set (butlast (batches n xs)) \<Longrightarrow> length b = n"
proof (induction n xs rule: batches.induct)
  case (1 n xs)
  show ?case
  proof (cases "xs = []")
    case True
    with "1.prems" show ?thesis by (simp add: batches_Nil)
  next
    case False
    show ?thesis
    proof (cases "drop n xs = []")
      case True
      with False "1.prems" show ?thesis by (simp add: batches_step batches_Nil)
    next
      case d: False
      then have "batches n (drop n xs) \<noteq> []" using "1.prems"(1) by (simp add: batches_step)
      with False d 1 show ?thesis by (auto simp: batches_step [of n xs])
    qed
  qed
qed

lemma batches_120: "length xs = 120 \<Longrightarrow> map length (batches 50 xs) = [50, 50, 20]"
proof -
  assume l: "length xs = 120"
  have n1: "xs \<noteq> []" using l by auto
  have n2: "drop 50 xs \<noteq> []" using l by auto
  have n3: "drop 100 xs \<noteq> []" using l by auto
  have s1: "batches 50 xs = take 50 xs # batches 50 (drop 50 xs)"
    using n1 by (simp add: batches_step)
  have s2: "batches 50 (drop 50 xs) = take 50 (drop 50 xs) # batches 50 (drop 100 xs)"
    using batches_step [of 50 "drop 50 xs"] n2 by simp
  have s3: "batches 50 (drop 100 xs) = take 50 (drop 100 xs) # batches 50 (drop 150 xs)"
    using batches_step [of 50 "drop 100 xs"] n3 by simp
  have s4: "batches 50 (drop 150 xs) = []"
    using l by (simp add: batches_Nil)
  show ?thesis
    using l by (simp add: s1 s2 s3 s4 batches_Nil)
qed

lemma fetch_loop_batches:
  "video_ids video_items = Inr ids \<Longrightarrow>
   \<exists>h' new. fetch_loop cl video_items i h all_details =
            Returns (h', all_details @ concat (map contribution new))
         \<and> details_calls h' = details_calls h @ new
         \<and> map fst new = batches 50 (drop i ids)"
proof (induction cl video_items i h all_details rule: fetch_loop.induct)
  case (1 cl video_items i h all_details)
  note ids = "1.prems"
  note len = video_ids_length [OF ids]
  show ?case
  proof (cases "i < length video_items")
    case False
    with len have "drop i ids = []" by simp
    with False show ?thesis
      by (simp add: fetch_loop.simps [of cl video_items i] batches_Nil)
  next
    case True
    define b where "b = take 50 (drop i ids)"
    have vb: "video_ids (take 50 (drop i video_items)) = Inr b"
      unfolding b_def by (intro video_ids_take video_ids_drop ids)
    obtain c' res where cl: "cl (client h) b = (c', res)" by (cases "cl (client h) b")
    define h1 where "h1 = h\<lparr>client := c', details_calls := details_calls h @ [(b, res)]\<rparr>"
    define all1 where "all1 = all_details @ contribution (b, res)"
    have step: "fetch_loop cl video_items i h all_details =
                fetch_loop cl video_items (i + 50) h1 all1"
      using True vb cl
      by (subst fetch_loop.simps)
         (simp add: h1_def all1_def contribution_def split: sum.splits)
    have "\<exists>h' new. fetch_loop cl video_items (i + 50) h1 all1 =
            Returns (h', all1 @ concat (map contribution new))
         \<and> details_calls h' = details_calls h1 @ new
         \<and> map fst new = batches 50 (drop (i + 50) ids)"
    proof (cases res)
      case (Inl e)
      have "all1 = all_details" by (simp add: all1_def contribution_def Inl)
      with "1.IH"(1) True vb cl [symmetric] Inl ids h1_def
      show ?thesis by simp
    next
      case (Inr response)
      show ?thesis
      proof (cases "details_of response")
        case e: (Inl e)
        have "all1 = all_details" by (simp add: all1_def contribution_def Inr e)
        with "1.IH"(2) True vb cl [symmetric] Inr e ids h1_def
        show ?thesis by simp
      next
        case d: (Inr details)
        have "all1 = all_details @ details" by (simp add: all1_def contribution_def Inr d)
        with "1.IH"(3) True vb cl [symmetric] Inr d ids h1_def
        show ?thesis by simp
      qed
    qed
    then obtain h' new where n:
      "fetch_loop cl video_items (i + 50) h1 all1 = Returns (h', all1 @ concat (map contribution new))"
      "details_calls h' = details_calls h1 @ new"
      "map fst new = batches 50 (drop (i + 50) ids)"
      by blast
    have ne: "drop i ids \<noteq> []" using True len by simp
    have "batches 50 (drop i ids) = b # batches 50 (drop (i + 50) ids)"
      using batches_step [OF _ ne, of 50] by (simp add: b_def add.commute)
    with n step show ?thesis
      by (intro exI [of _ h'] exI [of _ "(b, res) # new"]) (simp add: h1_def all1_def)
  qed
qed

lemma video_ids_map_stub:
  "video_ids (map (\<lambda>i. PDict [(''id'', PDict [(''videoId'', PStr (dec i))])]) xs) =
     Inr (map (\<lambda>i. PStr (dec i)) xs)"
  by (induction xs) (simp_all add: video_id_def)

lemma video_ids_stubs: "video_ids (stubs a n) = Inr (map (\<lambda>i. PStr (dec i)) [a..<a + n])"
  by (simp add: stubs_def video_ids_map_stub)

lemma run_batches_batches: "map fst (snd (run_batches cl c bs)) = bs"
proof (induction bs arbitrary: c)
  case Nil
  show ?case by simp
next
  case (Cons b bs)
  obtain c' res where a: "cl c b = (c', res)" by (cases "cl c b")
  obtain c'' calls where r: "run_batches cl c' bs = (c'', calls)"
    by (cases "run_batches cl c' bs")
  from Cons [of c'] r have "map fst calls = bs" by simp
  with a r show ?case by simp
qed

lemma fetch_loop_exact:
  "video_ids video_items = Inr ids \<Longrightarrow>
   fetch_loop cl video_items i h all_details =
     (let (c', calls) = run_batches cl (client h) (batches 50 (drop i ids))
      in Returns (h\<lparr>client := c', details_calls := details_calls h @ calls\<rparr>,
                  all_details @ concat (map contribution calls)))"
proof (induction cl video_items i h all_details rule: fetch_loop.induct)
  case (1 cl video_items i h all_details)
  note ids = "1.prems"
  note len = video_ids_length [OF ids]
  show ?case
  proof (cases "i < length video_items")
    case False
    with len have "drop i ids = []" by simp
    with False show ?thesis
      by (simp add: fetch_loop.simps [of cl video_items i] batches_Nil)
  next
    case True
    define b where "b = take 50 (drop i ids)"
    have vb: "video_ids (take 50 (drop i video_items)) = Inr b"
      unfolding b_def by (intro video_ids_take video_ids_drop ids)
    obtain c' res where cl: "cl (client h) b = (c', res)" by (cases "cl (client h) b")
    define h1 where "h1 = h\<lparr>client := c', details_calls := details_calls h @ [(b, res)]\<rparr>"
    define all1 where "all1 = all_details @ contribution (b, res)"
    have step: "fetch_loop cl video_items i h all_details =
                fetch_loop cl video_items (i + 50) h1 all1"
      using True vb cl
      by (subst fetch_loop.simps)
         (simp add: h1_def all1_def contribution_def split: sum.splits)
    have rest: "fetch_loop cl video_items (i + 50) h1 all1 =
      (let (c'', calls) = run_batches cl (client h1) (batches 50 (drop (i + 50) ids))
       in Returns (h1\<lparr>client := c'', details_calls := details_calls h1 @ calls\<rparr>,
                   all1 @ concat (map contribution calls)))"
    proof (cases res)
      case (Inl e)
      have "all1 = all_details" by (simp add: all1_def contribution_def Inl)
      with "1.IH"(1) True vb cl [symmetric] Inl ids h1_def
      show ?thesis by simp
    next
      case (Inr response)
      show ?thesis
      proof (cases "details_of response")
        case e: (Inl e)
        have "all1 = all_details" by (simp add: all1_def contribution_def Inr e)
        with "1.IH"(2) True vb cl [symmetric] Inr e ids h1_def
        show ?thesis by simp
      next
        case d: (Inr details)
        have "all1 = all_details @ details" by (simp add: all1_def contribution_def Inr d)
        with "1.IH"(3) True vb cl [symmetric] Inr d ids h1_def
        show ?thesis by simp
      qed
    qed
    have ne: "drop i ids \<noteq> []" using True len by simp
    have bs: "batches 50 (drop i ids) = b # batches 50 (drop (i + 50) ids)"
      using batches_step [OF _ ne, of 50] by (simp add: b_def add.commute)
    show ?thesis
      unfolding step rest bs
      by (simp add: cl h1_def all1_def Let_def split: prod.splits)
  qed
qed

section \<open>Facts about the keyword filter\<close>

lemma is_prefix_iff: "is_prefix k s \<longleftrightarrow> prefix k s"
  by (induction k s rule: is_prefix.induct) simp_all

lemma is_substring_iff: "is_substring k s \<longleftrightarrow> sublist k s"
proof (induction s)
  case Nil
  then show ?case by simp
next
  case (Cons c cs)
  then show ?case by (simp add: is_prefix_iff sublist_Cons_right)
qed

lemma lower_char_idem: "lower_char (lower_char c) = lower_char c"
proof (cases "(65 :: nat) \<le> of_char c \<and> of_char c \<le> (90 :: nat)")
  case True
  then have d: "lower_char c = char_of (of_char c + (32 :: nat))"
    by (simp add: lower_char_def)
  from True have "of_char (char_of (of_char c + (32 :: nat))) = (of_char c + 32 :: nat)"
    by (simp add: of_char_of)
  with True d have "\<not> (of_char (lower_char c) \<le> (90 :: nat))" by simp
  then show ?thesis by (simp add: lower_char_def [of "lower_char c"])
next
  case False
  have "lower_char c = c" by (simp only: lower_char_def False if_False)
  then show ?thesis by simp
qed

lemma lower_idem: "lower (lower s) = lower s"
  by (simp add: lower_def lower_char_idem)

lemma map_lower_idem: "map lower (map lower ks) = map lower ks"
  by (simp add: lower_idem)

lemma any_keyword_in_string:
  "any_keyword_in ks (PStr t) = Inr (\<exists>k \<in> set ks. sublist k t)"
  by (induction ks) (auto simp: then_do_def is_substring_iff)

lemma lower_char_ascii: "of_char c < (128 :: nat) \<Longrightarrow> of_char (lower_char c) < (128 :: nat)"
  by (simp add: lower_char_def of_char_of)

lemma is_ascii_lower: "is_ascii s \<Longrightarrow> is_ascii (lower s)"
  by (simp add: is_ascii_def lower_def list_all_iff lower_char_ascii)

lemma str_lower_ascii: "is_ascii s \<Longrightarrow> str_lower U (str_lower U s) = str_lower U s"
  by (simp add: str_lower_def is_ascii_lower lower_idem)

lemma lower_idempotent_plain_tables: "lower_idempotent plain_tables"
  unfolding lower_idempotent_def
proof
  fix s
  show "str_lower plain_tables (str_lower plain_tables s) = str_lower plain_tables s"
    by (cases "is_ascii s") (simp_all add: str_lower_ascii, simp add: str_lower_def plain_tables_def)
qed

lemma string_title_get:
  "string_title v = Some t \<Longrightarrow> py_get v ''title'' (PStr []) = Inr (PStr t)"
  by (cases v) (auto split: pyval.splits)

lemma keyword_loop_insensitive:
  assumes "lower_idempotent U"
  shows "\<forall>v \<in> set videos. string_title v \<noteq> None \<Longrightarrow>
   keyword_loop U videos ks False filtered =
     Inr (filtered @
          filter (\<lambda>v. \<exists>k \<in> set ks.
                    sublist (str_lower U k) (str_lower U (the (string_title v)))) videos)"
proof (induction videos arbitrary: ks filtered)
  case Nil
  then show ?case by simp
next
  case (Cons v videos)
  from Cons.prems obtain t where t: "string_title v = Some t" by auto
  from Cons.prems have rest: "\<forall>v \<in> set videos. string_title v \<noteq> None" by simp
  have idem: "str_lower U (str_lower U s) = str_lower U s" for s
    using assms by (simp add: lower_idempotent_def)
  have "keyword_loop U videos (map (str_lower U) ks) False acc =
     Inr (acc @
          filter (\<lambda>v. \<exists>k \<in> set ks.
                    sublist (str_lower U k) (str_lower U (the (string_title v)))) videos)"
    for acc
    using Cons.IH [OF rest, of "map (str_lower U) ks" acc] by (simp add: idem)
  then show ?case
    using t by (simp add: then_do_def string_title_get any_keyword_in_string)
qed

lemma keyword_loop_sensitive:
  "\<forall>v \<in> set videos. string_title v \<noteq> None \<Longrightarrow>
   keyword_loop U videos ks True filtered =
     Inr (filtered @
          filter (\<lambda>v. \<exists>k \<in> set ks. sublist k (the (string_title v))) videos)"
proof (induction videos arbitrary: filtered)
  case Nil
  then show ?case by simp
next
  case (Cons v videos)
  from Cons.prems obtain t where t: "string_title v = Some t" by auto
  from Cons.prems have rest: "\<forall>v \<in> set videos. string_title v \<noteq> None" by simp
  show ?case
    using t Cons.IH [OF rest] by (simp add: then_do_def string_title_get any_keyword_in_string)
qed

lemma keyword_loop_no_keywords:
  "\<forall>v \<in> set videos. string_title v \<noteq> None \<Longrightarrow>
   keyword_loop U videos [] case_sensitive filtered = Inr filtered"
proof (induction videos arbitrary: filtered)
  case Nil
  then show ?case by simp
next
  case (Cons v videos)
  from Cons.prems obtain t where t: "string_title v = Some t" by auto
  from Cons.prems have rest: "\<forall>v \<in> set videos. string_title v \<noteq> None" by simp
  show ?case
    using t Cons.IH [OF rest]
    by (cases case_sensitive) (simp_all add: then_do_def string_title_get)
qed

lemma filter_by_keywords_in_title_eq:
  "\<forall>v \<in> set videos. string_title v \<noteq> None \<Longrightarrow> case_sensitive \<or> lower_idempotent U \<Longrightarrow>
   filter_by_keywords_in_title U videos keywords case_sensitive =
     Inr (filter (\<lambda>v. \<exists>k \<in> set keywords.
                    sublist (folded U case_sensitive k)
                            (folded U case_sensitive (the (string_title v)))) videos)"
  by (cases case_sensitive)
     (simp_all add: filter_by_keywords_in_title_def folded_def keyword_loop_insensitive
        keyword_loop_sensitive)

section \<open>Facts about sorting\<close>

lemma insert_by_key_rank:
  fixes rank :: "pyval \<Rightarrow> 'r::linorder"
  assumes "\<forall>p \<in> set (x # ys). \<forall>q \<in> set (x # ys).
             py_lt (fst p) (fst q) = Inr (rank (fst p) < rank (fst q))"
  shows "insert_by_key x ys = Inr (insort_key (\<lambda>p. rank (fst p)) x ys)"
  using assms
proof (induction ys)
  case Nil
  then show ?case by simp
next
  case (Cons y ys)
  have lt: "py_lt (fst y) (fst x) = Inr (rank (fst y) < rank (fst x))"
    using Cons.prems by simp
  have "insert_by_key x ys = Inr (insort_key (\<lambda>p. rank (fst p)) x ys)"
    using Cons.prems by (intro Cons.IH) simp
  with lt show ?case
    by (auto simp: then_do_def)
qed

lemma sort_pairs_rank:
  fixes rank :: "pyval \<Rightarrow> 'r::linorder"
  assumes "\<forall>p \<in> set xs. \<forall>q \<in> set xs.
             py_lt (fst p) (fst q) = Inr (rank (fst p) < rank (fst q))"
  shows "sort_pairs xs = Inr (sort_key (\<lambda>p. rank (fst p)) xs)"
  using assms
proof (induction xs)
  case Nil
  then show ?case by simp
next
  case (Cons x xs)
  have ih: "sort_pairs xs = Inr (sort_key (\<lambda>p. rank (fst p)) xs)"
    using Cons.prems by (intro Cons.IH) simp
  have "insert_by_key x (sort_key (\<lambda>p. rank (fst p)) xs) =
        Inr (insort_key (\<lambda>p. rank (fst p)) x (sort_key (\<lambda>p. rank (fst p)) xs))"
    using Cons.prems by (intro insert_by_key_rank) simp
  with ih show ?case by (simp add: then_do_def)
qed

lemma sort_key_keyed:
  "sort_key (\<lambda>p. rank (fst p)) (map (\<lambda>v. (k v, v)) vs) =
   map (\<lambda>v. (k v, v)) (sort_key (\<lambda>v. rank (k v)) vs)"
proof (induction vs)
  case Nil
  then show ?case by simp
next
  case (Cons v vs)
  have "insort_key (\<lambda>p. rank (fst p)) (k v, v) (map (\<lambda>v. (k v, v)) ws) =
        map (\<lambda>v. (k v, v)) (insort_key (\<lambda>v. rank (k v)) v ws)" for ws
    by (induction ws) simp_all
  with Cons show ?case by simp
qed

lemma py_sorted_rank:
  fixes rank :: "pyval \<Rightarrow> 'r::linorder"
  assumes "\<forall>u \<in> set vs. \<forall>w \<in> set vs. py_lt (k u) (k w) = Inr (rank (k u) < rank (k w))"
  shows "py_sorted (map (\<lambda>v. (k v, v)) vs) reverse =
           Inr (stable_sorted (\<lambda>v. rank (k v)) reverse vs)"
proof -
  have a: "sort_pairs (map (\<lambda>v. (k v, v)) ws) =
             Inr (map (\<lambda>v. (k v, v)) (sort_key (\<lambda>v. rank (k v)) ws))"
    if "set ws = set vs" for ws
    using assms that by (subst sort_pairs_rank [where rank = rank]) (auto simp: sort_key_keyed)
  show ?thesis
    using a [of vs] a [of "rev vs"]
    by (simp add: py_sorted_def stable_sorted_def then_do_def rev_map comp_def)
qed

lemma map_raising_total:
  "\<forall>x \<in> set xs. f x = Inr (g x) \<Longrightarrow> map_raising f xs = Inr (map g xs)"
  by (induction xs) (simp_all add: then_do_def)

lemma field_get: "is_record v \<Longrightarrow> py_get v f (PInt 0) = Inr (field f v)"
  by (cases v) simp_all

lemma sort_videos_rank:
  fixes rank :: "pyval \<Rightarrow> 'r::linorder"
  assumes "\<forall>v \<in> set videos. is_record v"
    and "\<forall>u \<in> set videos. \<forall>w \<in> set videos.
           py_lt (field f u) (field f w) = Inr (rank (field f u) < rank (field f w))"
  shows "sort_videos videos f descending =
           Inr (stable_sorted (\<lambda>v. rank (field f v)) descending videos)"
proof -
  have "map_raising (\<lambda>x. py_get x f (PInt 0)) videos = Inr (map (field f) videos)"
    using assms(1) by (intro map_raising_total) (simp add: field_get)
  moreover have "zip (map (field f) videos) videos = map (\<lambda>v. (field f v, v)) videos"
    by (induction videos) simp_all
  ultimately show ?thesis
    using py_sorted_rank [where k = "field f" and rank = rank, OF assms(2)]
    by (simp add: sort_videos_def then_do_def)
qed

lemma py_lt_num:
  "num_of a \<noteq> None \<Longrightarrow> num_of b \<noteq> None \<Longrightarrow> py_lt a b = Inr (num_rank a < num_rank b)"
  by (cases a; cases b) (simp_all add: num_rank_def)

lemma str_lt_rank: "str_lt s t \<longleftrightarrow> map of_char s < (map of_char t :: nat list)"
  by (induction s t rule: str_lt.induct) auto

lemma py_lt_str:
  "is_str a \<Longrightarrow> is_str b \<Longrightarrow> py_lt a b = Inr (str_rank a < str_rank b)"
  by (cases a; cases b) (simp_all add: str_lt_rank)

lemma stable_sorted_stable:
  "filter (\<lambda>v. rank v = r) (stable_sorted rank reverse xs) = filter (\<lambda>v. rank v = r) xs"
proof (cases reverse)
  case True
  have "filter (\<lambda>v. rank v = r) (rev (sort_key rank (rev xs))) =
        rev (filter (\<lambda>v. rank v = r) (sort_key rank (rev xs)))"
    by (simp add: rev_filter)
  also have "\<dots> = rev (filter (\<lambda>v. rank v = r) (rev xs))"
    by (simp only: sort_key_stable)
  also have "\<dots> = filter (\<lambda>v. rank v = r) xs"
    by (simp add: rev_filter)
  finally show ?thesis using True by (simp add: stable_sorted_def)
next
  case False
  then show ?thesis by (simp add: stable_sorted_def sort_key_stable)
qed

lemma stable_sorted_mset: "mset (stable_sorted rank reverse xs) = mset xs"
  by (simp add: stable_sorted_def)

lemma stable_sorted_ordered:
  "sorted (map rank (if reverse then rev (stable_sorted rank reverse xs)
                     else stable_sorted rank reverse xs))"
  by (simp add: stable_sorted_def)

lemma stable_sorted_constant:
  assumes "\<forall>x \<in> set xs. rank x = r"
  shows "stable_sorted rank reverse xs = xs"
proof -
  have "set (stable_sorted rank reverse xs) = set xs"
    by (simp add: stable_sorted_def)
  with assms have "filter (\<lambda>v. rank v = r) (stable_sorted rank reverse xs) =
                   stable_sorted rank reverse xs"
    by (intro filter_True) simp
  moreover from assms have "filter (\<lambda>v. rank v = r) xs = xs"
    by (intro filter_True) simp
  ultimately show ?thesis
    using stable_sorted_stable [of rank r reverse xs] by simp
qed

section \<open>Facts about the pipeline\<close>

lemma then_do_Inr: "then_do r f = Inr y \<longleftrightarrow> (\<exists>x. r = Inr x \<and> f x = Inr y)"
  by (cases r) (simp_all add: then_do_def)

lemma extract_video_info_record:
  assumes "extract_video_info U video = Inr r"
  shows "is_record r \<and> (\<exists>n. field ''view_count'' r = PInt n)"
proof -
  from assms obtain d n where "r = PDict d" "dict_get d ''view_count'' (PInt 0) = PInt n"
    unfolding extract_video_info_def then_do_Inr Let_def
    by (auto simp: dict_get_def)
  then show ?thesis by auto
qed

lemma map_raising_Inr:
  "map_raising f xs = Inr ys \<Longrightarrow> length ys = length xs \<and> (\<forall>i < length xs. f (xs ! i) = Inr (ys ! i))"
proof (induction xs arbitrary: ys)
  case Nil
  then show ?case by simp
next
  case (Cons x xs)
  from Cons.prems obtain z zs where z: "f x = Inr z" "map_raising f xs = Inr zs" "ys = z # zs"
    by (auto simp: then_do_Inr)
  with Cons.IH [OF z(2)] show ?case
    by (auto simp: nth_Cons split: nat.splits)
qed

lemma extracted_records:
  assumes "map_raising (extract_video_info U) raw_videos = Inr records"
  shows "\<forall>r \<in> set records. is_record r \<and> (\<exists>n. field ''view_count'' r = PInt n)"
proof
  fix r assume "r \<in> set records"
  then obtain i where i: "i < length records" "records ! i = r"
    by (auto simp: in_set_conv_nth)
  with map_raising_Inr [OF assms] have "extract_video_info U (raw_videos ! i) = Inr r"
    by auto
  then show "is_record r \<and> (\<exists>n. field ''view_count'' r = PInt n)"
    by (rule extract_video_info_record)
qed

lemma filter_by_views_records:
  "\<forall>r \<in> set records. is_record r \<and> (\<exists>n. field ''view_count'' r = PInt n) \<Longrightarrow>
   filter_by_views records min_views = Inr (filter (\<lambda>r. min_views \<le> views r) records)"
proof (induction records)
  case Nil
  then show ?case by simp
next
  case (Cons r records)
  from Cons.prems obtain n where n: "is_record r" "field ''view_count'' r = PInt n" by auto
  then have g: "py_get r ''view_count'' (PInt 0) = Inr (PInt n)"
    by (simp add: field_get)
  from Cons have "filter_by_views records min_views =
                  Inr (filter (\<lambda>r. min_views \<le> views r) records)" by simp
  with g n show ?case
    by (simp add: then_do_def py_ge_int_def views_def num_rank_def)
qed

lemma sort_by_views:
  assumes "\<forall>r \<in> set records. is_record r \<and> (\<exists>n. field ''view_count'' r = PInt n)"
  shows "sort_videos records ''view_count'' True = Inr (stable_sorted views True records)"
proof -
  have n: "num_of (field ''view_count'' r) \<noteq> None" if "r \<in> set records" for r
  proof -
    from assms that obtain n where "field ''view_count'' r = PInt n" by blast
    then show ?thesis by simp
  qed
  have "sort_videos records ''view_count'' True =
          Inr (stable_sorted (\<lambda>v. num_rank (field ''view_count'' v)) True records)"
    using assms n by (intro sort_videos_rank) (simp_all add: py_lt_num)
  then show ?thesis by (simp add: views_def [abs_def])
qed

lemma process_video_batch_no_keywords:
  assumes "map_raising (extract_video_info U) raw_videos = Inr records"
    and "filter_keywords = None \<or> filter_keywords = Some []"
  shows "process_video_batch U raw_videos min_views filter_keywords =
           Inr (stable_sorted views True (filter (\<lambda>r. min_views \<le> views r) records))"
proof -
  note rec = extracted_records [OF assms(1)]
  then have "\<forall>r \<in> set (filter (\<lambda>r. min_views \<le> views r) records).
               is_record r \<and> (\<exists>n. field ''view_count'' r = PInt n)" by simp
  from sort_by_views [OF this] assms filter_by_views_records [OF rec, of min_views]
  show ?thesis
    by (auto simp: process_video_batch_def then_do_def)
qed

lemma process_video_batch_keywords:
  assumes "map_raising (extract_video_info U) raw_videos = Inr records"
    and "ks \<noteq> []"
    and "\<forall>r \<in> set records. string_title r \<noteq> None"
    and "lower_idempotent U"
  shows "process_video_batch U raw_videos min_views (Some ks) =
           Inr (stable_sorted views True
                  (filter (title_matches U ks)
                     (filter (\<lambda>r. min_views \<le> views r) records)))"
proof -
  note rec = extracted_records [OF assms(1)]
  let ?viewed = "filter (\<lambda>r. min_views \<le> views r) records"
  have t: "\<forall>r \<in> set ?viewed. string_title r \<noteq> None" using assms(3) by simp
  have kw: "filter_by_keywords_in_title U ?viewed ks False =
              Inr (filter (title_matches U ks) ?viewed)"
    using filter_by_keywords_in_title_eq [OF t, of False U ks] assms(4)
    by (simp add: folded_def title_matches_def [abs_def])
  from rec have "\<forall>r \<in> set (filter (title_matches U ks) ?viewed).
               is_record r \<and> (\<exists>n. field ''view_count'' r = PInt n)" by simp
  from sort_by_views [OF this] assms(1,2) filter_by_views_records [OF rec, of min_views] kw
  show ?thesis
    by (simp add: process_video_batch_def then_do_def)
qed

section \<open>Facts about the normalizer\<close>

lemma format_duration_zero: "format_duration 0 = Inr ''0:00''"
  by (simp add: format_duration_def)

lemma extract_video_info_defaults:
  assumes "map_of d ''snippet'' = None" "map_of d ''statistics'' = None"
    "map_of d ''contentDetails'' = None"
    and "py_str U (dict_get d ''id'' PNone) = Inr u"
  shows "extract_video_info U (PDict d) = Inr (default_record (dict_get d ''id'' PNone) u)"
  using assms
  by (simp add: extract_video_info_def default_record_def then_do_def dict_get_def count_of_def
      format_duration_zero is_youtube_short_def get_video_type_def)

lemma extract_video_info_general_defaults:
  assumes "map_of d ''snippet'' = None" "map_of d ''statistics'' = None"
    "map_of d ''contentDetails'' = None"
    and "py_str U (dict_get d ''id'' PNone) = Inr u"
  shows "extract_video_info_general U (PDict d) =
           Inr (default_record_general (dict_get d ''id'' PNone) u)"
  using assms
  by (simp add: extract_video_info_general_def default_record_general_def then_do_def
      dict_get_def count_of_def)

lemma duration_total:
  assumes "plain_duration v"
  shows "\<exists>n f. parse_duration U v = Inr n \<and> format_duration n = Inr f"
proof (cases v)
  case (PStr s)
  with assms have a: "is_ascii s" and l: "length s \<le> 4000" by simp_all
  from l have "length s \<le> max_str_digits" by (simp add: max_str_digits_def)
  from parse_duration_short [OF a this, of U] obtain n where
    n: "parse_duration U (PStr s) = Inr n" "0 \<le> n" "n < 3661 * 10 ^ length s" by blast
  from format_duration_accepts [OF n(2,3) l] n(1) PStr show ?thesis by auto
qed (use assms in \<open>simp_all add: format_duration_zero\<close>)

lemma strings_of_total: "list_all is_str xs \<Longrightarrow> \<exists>ss. strings_of xs = Inr ss"
proof (induction xs)
  case Nil
  then show ?case by simp
next
  case (Cons x xs)
  then obtain ss where "strings_of xs = Inr ss" by auto
  with Cons.prems show ?case by (cases x) (simp_all add: then_do_def)
qed

lemma tags_string_total:
  "string_list tags \<Longrightarrow>
   \<exists>t. (if truthy tags then py_join '', '' tags else Inr ''No tags'') = Inr t"
proof (cases tags)
  case (PList xs)
  assume "string_list tags"
  with PList obtain ss where "strings_of xs = Inr ss"
    using strings_of_total by auto
  with PList show ?thesis by (simp add: py_join_def then_do_def)
qed simp_all

lemma slice_total: "sliceable v \<Longrightarrow> \<exists>w. py_slice_to v n = Inr w"
  by (cases v) simp_all

lemma count_total:
  "is_count U (dict_get st k (PInt 0)) \<Longrightarrow> \<exists>n. count_of U (PDict st) k = Inr n"
  by (simp add: is_count_def count_of_def then_do_def split: sum.splits)

lemma id_string_total: "plain_id v \<Longrightarrow> \<exists>u. py_str U v = Inr u"
  by (cases v) simp_all

lemma well_typed_parts:
  assumes "well_typed_raw U video"
  shows "\<exists>d s st cd th hi n1 n2 n3 secs shown tags_string short u.
           video = PDict d
         \<and> dict_get d ''snippet'' (PDict []) = PDict s
         \<and> dict_get d ''statistics'' (PDict []) = PDict st
         \<and> dict_get d ''contentDetails'' (PDict []) = PDict cd
         \<and> dict_get s ''thumbnails'' (PDict []) = PDict th
         \<and> dict_get th ''high'' (PDict []) = PDict hi
         \<and> count_of U (PDict st) ''viewCount'' = Inr n1
         \<and> count_of U (PDict st) ''likeCount'' = Inr n2
         \<and> count_of U (PDict st) ''commentCount'' = Inr n3
         \<and> parse_duration U (dict_get cd ''duration'' (PStr ''N/A'')) = Inr secs
         \<and> format_duration secs = Inr shown
         \<and> (if truthy (dict_get s ''tags'' (PList []))
             then py_join '', '' (dict_get s ''tags'' (PList []))
             else Inr ''No tags'') = Inr tags_string
         \<and> py_slice_to (dict_get s ''description'' (PStr [])) 500 = Inr short
         \<and> py_str U (dict_get d ''id'' PNone) = Inr u"
proof -
  from assms obtain d where d: "video = PDict d"
    by (cases video) (simp_all add: well_typed_raw_def)
  from assms d obtain s where s: "dict_get d ''snippet'' (PDict []) = PDict s"
    by (cases "dict_get d ''snippet'' (PDict [])")
       (simp_all add: well_typed_raw_def well_typed_snippet_def)
  from assms d obtain st where st: "dict_get d ''statistics'' (PDict []) = PDict st"
    by (cases "dict_get d ''statistics'' (PDict [])")
       (simp_all add: well_typed_raw_def well_typed_statistics_def)
  from assms d obtain cd where cd: "dict_get d ''contentDetails'' (PDict []) = PDict cd"
    by (cases "dict_get d ''contentDetails'' (PDict [])")
       (simp_all add: well_typed_raw_def well_typed_content_def)
  from assms d s obtain th where th: "dict_get s ''thumbnails'' (PDict []) = PDict th"
    by (cases "dict_get s ''thumbnails'' (PDict [])")
       (simp_all add: well_typed_raw_def well_typed_snippet_def)
  from assms d s th obtain hi where hi: "dict_get th ''high'' (PDict []) = PDict hi"
    by (cases "dict_get th ''high'' (PDict [])")
       (simp_all add: well_typed_raw_def well_typed_snippet_def)
  from assms d st obtain n1 n2 n3 where n:
    "count_of U (PDict st) ''viewCount'' = Inr n1"
    "count_of U (PDict st) ''likeCount'' = Inr n2"
    "count_of U (PDict st) ''commentCount'' = Inr n3"
    using count_total [of U st "''viewCount''"] count_total [of U st "''likeCount''"]
      count_total [of U st "''commentCount''"]
    by (auto simp: well_typed_raw_def well_typed_statistics_def)
  from assms d cd obtain secs shown where
    secs: "parse_duration U (dict_get cd ''duration'' (PStr ''N/A'')) = Inr secs"
      "format_duration secs = Inr shown"
    using duration_total [of "dict_get cd ''duration'' (PStr ''N/A'')" U]
    by (auto simp: well_typed_raw_def well_typed_content_def)
  from assms d s obtain t where
    t: "(if truthy (dict_get s ''tags'' (PList []))
         then py_join '', '' (dict_get s ''tags'' (PList [])) else Inr ''No tags'') = Inr t"
    using tags_string_total [of "dict_get s ''tags'' (PList [])"]
    by (auto simp: well_typed_raw_def well_typed_snippet_def)
  from assms d s obtain short where
    short: "py_slice_to (dict_get s ''description'' (PStr [])) 500 = Inr short"
    using slice_total [of "dict_get s ''description'' (PStr [])" 500]
    by (auto simp: well_typed_raw_def well_typed_snippet_def)
  from assms d obtain u where u: "py_str U (dict_get d ''id'' PNone) = Inr u"
    using id_string_total [of "dict_get d ''id'' PNone" U]
    by (auto simp: well_typed_raw_def)
  from d s st cd th hi n secs t short u show ?thesis by blast
qed

lemma extract_video_info_built:
  assumes "dict_get d ''snippet'' (PDict []) = PDict s"
    and "dict_get d ''statistics'' (PDict []) = PDict st"
    and "dict_get d ''contentDetails'' (PDict []) = PDict cd"
    and "dict_get s ''thumbnails'' (PDict []) = PDict th"
    and "dict_get th ''high'' (PDict []) = PDict hi"
    and "count_of U (PDict st) ''viewCount'' = Inr n1"
    and "count_of U (PDict st) ''likeCount'' = Inr n2"
    and "count_of U (PDict st) ''commentCount'' = Inr n3"
    and "parse_duration U (dict_get cd ''duration'' (PStr ''N/A'')) = Inr secs"
    and "format_duration secs = Inr shown"
    and "(if truthy (dict_get s ''tags'' (PList []))
          then py_join '', '' (dict_get s ''tags'' (PList []))
          else Inr ''No tags'') = Inr tags_string"
    and "py_slice_to (dict_get s ''description'' (PStr [])) 500 = Inr short"
    and "py_str U (dict_get d ''id'' PNone) = Inr u"
  shows "extract_video_info U (PDict d) =
           Inr (built_record (dict_get d ''id'' PNone) u s hi n1 n2 n3 secs shown
                  tags_string short)"
    and "extract_video_info_general U (PDict d) =
           Inr (built_record_general (dict_get d ''id'' PNone) u s hi cd n1 n2 n3
                  tags_string short)"
  unfolding extract_video_info_def extract_video_info_general_def
  by (simp_all add: then_do_def assms built_record_def built_record_general_def
      is_youtube_short_def del: if_split)

section \<open>Duration parsing\<close>

lemma parse_duration_over_limit:
  "\<not> (fits h \<and> fits m \<and> fits s) \<Longrightarrow>
   parse_duration U (PStr (duration_token h m s)) = Inl ValueError"
  using token_not_null [of h m s]
  by (auto simp: replace_PT_token then_do_def
      component_dec [OF is_ascii_token_body re_search_H]
      component_dec [OF is_ascii_token_body re_search_M]
      component_dec [OF is_ascii_token_body re_search_S])

lemma not_fits_power: "\<not> fits (Some (10 ^ max_str_digits))"
  by (simp add: dec_power_length)

text \<open>
  Claim C3, as stated, fails: malformed input does not always yield 0. The token
  \<open>5M\<close> has no \<open>PT\<close> prefix, so it is not of the form \<open>PT[nH][nM][nS]\<close>, and
  \<open>parse_duration\<close> returns 300 for it, whatever the Unicode tables are.
\<close>

theorem parse_duration_malformed_counterexample:
  "\<not> (\<exists>U. \<forall>t. (\<nexists>h m s. t = duration_token h m s) \<longrightarrow> parse_duration U (PStr t) = Inr 0)"
proof
  assume "\<exists>U. \<forall>t. (\<nexists>h m s. t = duration_token h m s) \<longrightarrow> parse_duration U (PStr t) = Inr 0"
  then obtain U where
    a: "\<forall>t. (\<nexists>h m s. t = duration_token h m s) \<longrightarrow> parse_duration U (PStr t) = Inr 0"
    by blast
  have "\<nexists>h m s. ''5M'' = duration_token h m s"
    by (simp add: duration_token_def)
  with a have "parse_duration U (PStr ''5M'') = Inr 0" by blast
  moreover have "parse_duration U (PStr ''5M'') = Inr 300" by code_simp
  ultimately show False by simp
qed

text \<open>
  Claim C3, amended. For all non-negative integers \<open>h\<close>, \<open>m\<close>, \<open>s\<close> written with at most
  4300 decimal digits each, parsing \<open>PT{h}H{m}M{s}S\<close> yields \<open>h*3600 + m*60 + s\<close>; a
  component whose designator is absent counts as 0; a token with a component of more
  than 4300 digits makes \<open>parse_duration\<close> raise \<open>ValueError\<close>. The empty string and the
  marker \<open>N/A\<close> yield 0, every ASCII string without a digit yields 0, and no ASCII
  string of at most 4300 characters makes \<open>parse_duration\<close> raise. (Malformed input that
  still holds a digit run followed by a designator yields that component's value; what
  a string with characters outside ASCII yields is left to the Unicode tables.)
\<close>

theorem parse_duration_roundtrip:
  "(fits (Some h) \<and> fits (Some m) \<and> fits (Some s) \<longrightarrow>
      parse_duration U (PStr (duration_token (Some h) (Some m) (Some s))) =
        Inr (int h * 3600 + int m * 60 + int s))
   \<and> (fits ho \<and> fits mo \<and> fits so \<longrightarrow>
        parse_duration U (PStr (duration_token ho mo so)) =
          Inr (or_zero ho * 3600 + or_zero mo * 60 + or_zero so))
   \<and> (\<not> (fits ho \<and> fits mo \<and> fits so) \<longrightarrow>
        parse_duration U (PStr (duration_token ho mo so)) = Inl ValueError)
   \<and> parse_duration U (PStr []) = Inr 0
   \<and> parse_duration U (PStr ''N/A'') = Inr 0
   \<and> (is_ascii t \<and> (\<forall>c \<in> set t. \<not> is_digit c) \<longrightarrow> parse_duration U (PStr t) = Inr 0)
   \<and> (is_ascii t \<and> length t \<le> max_str_digits \<longrightarrow> (\<exists>n. parse_duration U (PStr t) = Inr n))"
proof -
  have "fits (Some h) \<and> fits (Some m) \<and> fits (Some s) \<longrightarrow>
      parse_duration U (PStr (duration_token (Some h) (Some m) (Some s))) =
        Inr (int h * 3600 + int m * 60 + int s)"
    using parse_duration_token [of "Some h" "Some m" "Some s" U]
    by (simp add: or_zero_def)
  moreover have "fits ho \<and> fits mo \<and> fits so \<longrightarrow>
        parse_duration U (PStr (duration_token ho mo so)) =
          Inr (or_zero ho * 3600 + or_zero mo * 60 + or_zero so)"
    using parse_duration_token [of ho mo so U] by blast
  moreover have "\<not> (fits ho \<and> fits mo \<and> fits so) \<longrightarrow>
        parse_duration U (PStr (duration_token ho mo so)) = Inl ValueError"
    using parse_duration_over_limit [of ho mo so U] by blast
  moreover have "parse_duration U (PStr []) = Inr 0 \<and> parse_duration U (PStr ''N/A'') = Inr 0"
    by simp
  moreover have
    "is_ascii t \<and> (\<forall>c \<in> set t. \<not> is_digit c) \<longrightarrow> parse_duration U (PStr t) = Inr 0"
    using parse_duration_no_digit [of t U] by blast
  moreover have
    "is_ascii t \<and> length t \<le> max_str_digits \<longrightarrow> (\<exists>n. parse_duration U (PStr t) = Inr n)"
    using parse_duration_short [of t U] by blast
  ultimately show ?thesis by blast
qed

text \<open>
  The theorem at \<open>PT1H2M10S\<close>, at \<open>PT4M13S\<close>, at the malformed \<open>PTxS\<close>, and at a token
  whose hours are a 1 followed by 4300 zeros.
\<close>

theorem parse_duration_roundtrip_witness:
  "parse_duration plain_tables (PStr (duration_token (Some 1) (Some 2) (Some 10))) = Inr 3730
   \<and> parse_duration plain_tables (PStr (duration_token None (Some 4) (Some 13))) = Inr 253
   \<and> parse_duration plain_tables (PStr ''PTxS'') = Inr 0
   \<and> parse_duration plain_tables
       (PStr (duration_token (Some (10 ^ max_str_digits)) (Some 4) None)) = Inl ValueError"
proof -
  have f: "fits (Some 1)" "fits (Some 2)" "fits (Some 10)" "fits None" "fits (Some 4)"
    "fits (Some 13)"
    by (simp_all add: max_str_digits_def dec.simps)
  have t: "is_ascii ''PTxS''" "\<forall>c \<in> set ''PTxS''. \<not> is_digit c"
    "length ''PTxS'' \<le> max_str_digits"
    by (simp_all add: is_digit_def max_str_digits_def)
  from parse_duration_roundtrip
    [where U = plain_tables and h = 1 and m = 2 and s = 10 and ho = None
       and mo = "Some 4" and so = "Some 13" and t = "''PTxS''"] f t
  have a: "parse_duration plain_tables (PStr (duration_token (Some 1) (Some 2) (Some 10))) =
             Inr 3730"
    "parse_duration plain_tables (PStr (duration_token None (Some 4) (Some 13))) = Inr 253"
    "parse_duration plain_tables (PStr ''PTxS'') = Inr 0"
    by (simp_all add: or_zero_def)
  from parse_duration_roundtrip
    [where U = plain_tables and ho = "Some (10 ^ max_str_digits)"
       and mo = "Some 4" and so = None] not_fits_power
  have "parse_duration plain_tables
       (PStr (duration_token (Some (10 ^ max_str_digits)) (Some 4) None)) = Inl ValueError"
    by blast
  with a show ?thesis by blast
qed

section \<open>Classification bands\<close>

text \<open>
  Claim C4. For every non-negative number of seconds \<open>s\<close>, \<open>get_video_type\<close> maps
  \<open>0\<close> to Unknown, \<open>(0,60]\<close> to Short, \<open>(60,240]\<close> to Short Video, \<open>(240,600]\<close> to
  Medium Video, \<open>(600,1200]\<close> to Long Video and anything larger to Very Long Video;
  the upper boundary of each band belongs to the band.
\<close>

theorem get_video_type_bands:
  assumes "0 \<le> s"
  shows "(s = 0 \<longrightarrow> get_video_type s = ''Unknown'')
       \<and> (0 < s \<and> s \<le> 60 \<longrightarrow> get_video_type s = ''Short'')
       \<and> (60 < s \<and> s \<le> 240 \<longrightarrow> get_video_type s = ''Short Video'')
       \<and> (240 < s \<and> s \<le> 600 \<longrightarrow> get_video_type s = ''Medium Video'')
       \<and> (600 < s \<and> s \<le> 1200 \<longrightarrow> get_video_type s = ''Long Video'')
       \<and> (1200 < s \<longrightarrow> get_video_type s = ''Very Long Video'')"
  using assms by (simp add: get_video_type_def)

theorem get_video_type_bands_witness:
  "get_video_type 0 = ''Unknown'' \<and> get_video_type 60 = ''Short''
   \<and> get_video_type 61 = ''Short Video'' \<and> get_video_type 240 = ''Short Video''
   \<and> get_video_type 241 = ''Medium Video'' \<and> get_video_type 600 = ''Medium Video''
   \<and> get_video_type 1200 = ''Long Video'' \<and> get_video_type 1201 = ''Very Long Video''"
  using get_video_type_bands [of 0] get_video_type_bands [of 60]
    get_video_type_bands [of 61] get_video_type_bands [of 240]
    get_video_type_bands [of 241] get_video_type_bands [of 600]
    get_video_type_bands [of 1200] get_video_type_bands [of 1201]
  by simp

section \<open>Pagination accumulator\<close>



section \<open>Negative target count\<close>

text \<open>
  Claim C9, as stated, fails: called with the target count \<open>-1\<close>,
  \<open>search_videos_with_keywords\<close> raises nothing. The loop condition is false at once,
  so the call returns the empty list, and no request is issued.
\<close>

theorem negative_target_counterexample:
  "search_videos_with_keywords 0 two_pages h0 [''space''] (- 1) ''viewCount'' None None =
     Some (Returns (h0, []))
   \<and> \<not> raises (search_videos_with_keywords 0 two_pages h0 [''space''] (- 1) ''viewCount''
          None None)"
  by (simp add: search_videos_with_keywords_def h0_def)

text \<open>
  Claim C9, amended. Invoked with a target count that is negative (or zero), the
  pagination accumulator does not raise: it issues no request and returns the empty
  list, for every client and every list of keywords.
\<close>

theorem negative_target_returns_empty:
  assumes "m \<le> 0"
  shows "search_videos_with_keywords fuel cl h keywords m ord pub_after pub_before =
           Some (Returns (h\<lparr>search_results := []\<rparr>, []))
       \<and> \<not> raises (search_videos_with_keywords fuel cl h keywords m ord pub_after pub_before)"
  using assms by (simp add: search_videos_with_keywords_def search_loop_done)

theorem negative_target_returns_empty_witness:
  "(- 5::int) \<le> 0
   \<and> search_videos_with_keywords 3 two_pages h0 [''space'', ''x''] (- 5) ''date'' None None =
       Some (Returns (h0, []))"
  using negative_target_returns_empty [of "- 5" 3 two_pages h0 "[''space'', ''x'']" "''date''" None None]
  by (simp add: h0_def)

section \<open>Detail batcher\<close>

lemma run_batches_nth:
  "k < length bs \<Longrightarrow>
   snd (run_batches cl c bs) ! k =
     (bs ! k, snd (cl (fst (run_batches cl c (take k bs))) (bs ! k)))"
proof (induction bs arbitrary: c k)
  case Nil
  then show ?case by simp
next
  case (Cons b bs)
  obtain c' res where a: "cl c b = (c', res)" by (cases "cl c b")
  show ?case
  proof (cases k)
    case 0
    with a show ?thesis by (simp split: prod.splits)
  next
    case (Suc j)
    with Cons.prems have "j < length bs" by simp
    from Cons.IH [OF this, of c'] a Suc show ?thesis
      by (auto split: prod.splits)
  qed
qed

lemma fetch_video_statistics_exact:
  assumes "video_ids video_items = Inr ids"
  shows "fetch_video_statistics cl h (Some video_items) =
           (let (c', calls) = run_batches cl (client h) (batches 50 ids);
                out = concat (map contribution calls)
            in Returns
                 (if video_items = [] then h
                  else h\<lparr>client := c', details_calls := details_calls h @ calls,
                         video_details := out\<rparr>,
                  out))"
proof (cases "video_items = []")
  case True
  with assms have "ids = []" by simp
  with True show ?thesis
    by (simp add: fetch_video_statistics_def batches_Nil)
next
  case False
  with fetch_loop_exact [OF assms, of cl 0 h "[]"] show ?thesis
    by (simp add: fetch_video_statistics_def Let_def split: prod.splits)
qed

lemma second_fails_run:
  "(let (c', calls) = run_batches second_fails 0
                        (batches 50 (map (\<lambda>i. PStr (dec i)) [0..<120]))
    in (c', map (\<lambda>call. length (fst call)) calls, map (\<lambda>call. isl (snd call)) calls,
        concat (map contribution calls))) =
   (3, [50, 50, 20], [False, True, False],
    map (\<lambda>i. PDict [(''id'', PStr (dec i))]) ([0..<50] @ [100..<120]))"
  by code_simp

text \<open>
  Claim C7. When every stub carries an identifier, \<open>fetch_video_statistics\<close> returns,
  and what it did is exactly this: it called the client once for each of the
  consecutive batches of at most 50 identifiers, in order, each call in the client
  state the call before left (\<open>run_batches\<close>: the k-th call is the k-th batch, answered
  by the client in the state reached after the first k batches). The handler returned
  holds the last client state, the calls appended to its log and the output as
  \<open>video_details\<close>; for an empty stub list the handler is returned as it was. The
  output is the concatenation, in the order the batches were issued, of what each call
  contributed: the items of its response, and nothing for a call that failed, after
  which the remaining batches are still issued. The batches concatenate to the
  identifier list, none is empty or longer than 50, all but the last hold exactly 50,
  and 120 identifiers give batches of 50, 50 and 20.
\<close>

theorem fetch_video_statistics_batches:
  assumes "video_ids video_items = Inr ids"
  shows "fetch_video_statistics cl h (Some video_items) =
           (let (c', calls) = run_batches cl (client h) (batches 50 ids);
                out = concat (map contribution calls)
            in Returns
                 (if video_items = [] then h
                  else h\<lparr>client := c', details_calls := details_calls h @ calls,
                         video_details := out\<rparr>,
                  out))
       \<and> map fst (snd (run_batches cl (client h) (batches 50 ids))) = batches 50 ids
       \<and> (\<forall>k < length (batches 50 ids).
            snd (run_batches cl (client h) (batches 50 ids)) ! k =
              (batches 50 ids ! k,
               snd (cl (fst (run_batches cl (client h) (take k (batches 50 ids))))
                      (batches 50 ids ! k))))
       \<and> concat (batches 50 ids) = ids
       \<and> (\<forall>b \<in> set (batches 50 ids). 0 < length b \<and> length b \<le> 50)
       \<and> (\<forall>b \<in> set (butlast (batches 50 ids)). length b = 50)
       \<and> (length ids = 120 \<longrightarrow> map length (batches 50 ids) = [50, 50, 20])
       \<and> (\<forall>b e. contribution (b, Inl e) = [])
       \<and> (\<forall>b d items. dict_get d ''items'' (PList []) = PList items \<longrightarrow>
             contribution (b, Inr (PDict d)) = items)"
proof -
  have props: "concat (batches 50 ids) = ids
         \<and> (\<forall>b \<in> set (batches 50 ids). 0 < length b \<and> length b \<le> 50)
         \<and> (\<forall>b \<in> set (butlast (batches 50 ids)). length b = 50)
         \<and> (length ids = 120 \<longrightarrow> map length (batches 50 ids) = [50, 50, 20])
         \<and> (\<forall>b e. contribution (b, Inl e) = [])
         \<and> (\<forall>b d items. dict_get d ''items'' (PList []) = PList items \<longrightarrow>
               contribution (b, Inr (PDict d)) = items)"
    using batches_sizes [of 50 _ ids] batches_full [of 50 _ ids]
    by (simp add: concat_batches batches_120 contribution_def details_of_def)
  have nth: "\<forall>k < length (batches 50 ids).
            snd (run_batches cl (client h) (batches 50 ids)) ! k =
              (batches 50 ids ! k,
               snd (cl (fst (run_batches cl (client h) (take k (batches 50 ids))))
                      (batches 50 ids ! k)))"
    using run_batches_nth [of _ "batches 50 ids" cl "client h"] by blast
  from fetch_video_statistics_exact [OF assms, of cl h]
    run_batches_batches [of cl "client h" "batches 50 ids"] nth props
  show ?thesis by blast
qed

text \<open>
  The theorem at 120 stubs and a client whose second call fails: three calls, of 50,
  50 and 20 identifiers, and the output holds the details of the first 50 and the last
  20 stubs.
\<close>

theorem fetch_video_statistics_batches_witness:
  "video_ids (stubs 0 120) = Inr (map (\<lambda>i. PStr (dec i)) [0..<120])
   \<and> (\<exists>h'. fetch_video_statistics second_fails h1 (Some (stubs 0 120)) =
               Returns (h', map (\<lambda>i. PDict [(''id'', PStr (dec i))]) ([0..<50] @ [100..<120]))
          \<and> client h' = 3
          \<and> map (\<lambda>call. length (fst call)) (details_calls h') = [50, 50, 20]
          \<and> map (\<lambda>call. isl (snd call)) (details_calls h') = [False, True, False]
          \<and> video_details h' =
              map (\<lambda>i. PDict [(''id'', PStr (dec i))]) ([0..<50] @ [100..<120]))"
proof -
  let ?ids = "map (\<lambda>i. PStr (dec i)) [0..<120]"
  let ?out = "map (\<lambda>i. PDict [(''id'', PStr (dec i))]) ([0..<50] @ [100..<120])"
  have v: "video_ids (stubs 0 120) = Inr ?ids"
    using video_ids_stubs [of 0 120] by simp
  have ne: "stubs 0 120 \<noteq> []"
    using length_stubs [of 0 120] by auto
  obtain c' calls where rb: "run_batches second_fails 0 (batches 50 ?ids) = (c', calls)"
    by (cases "run_batches second_fails 0 (batches 50 ?ids)")
  with second_fails_run have r: "c' = 3"
    "map (\<lambda>call. length (fst call)) calls = [50, 50, 20]"
    "map (\<lambda>call. isl (snd call)) calls = [False, True, False]"
    "concat (map contribution calls) = ?out"
    by simp_all
  have c: "client h1 = 0" "details_calls h1 = []" by (simp_all add: h1_def)
  from fetch_video_statistics_batches [OF v, of second_fails h1]
  have "fetch_video_statistics second_fails h1 (Some (stubs 0 120)) =
           (let (c', calls) = run_batches second_fails (client h1) (batches 50 ?ids);
                out = concat (map contribution calls)
            in Returns
                 (if stubs 0 120 = [] then h1
                  else h1\<lparr>client := c', details_calls := details_calls h1 @ calls,
                          video_details := out\<rparr>,
                  out))"
    by (rule conjunct1)
  then have "fetch_video_statistics second_fails h1 (Some (stubs 0 120)) =
           Returns (h1\<lparr>client := 3, details_calls := calls, video_details := ?out\<rparr>, ?out)"
    by (simp only: c rb r ne Let_def prod.case if_False append_Nil)
  with v r show ?thesis by simp
qed

section \<open>Keyword filter\<close>

text \<open>
  Claim C8. For every collection of records (dictionaries whose title is a string) and
  every keyword list, \<open>filter_by_keywords_in_title\<close> keeps, in input order, exactly the
  records for which at least one keyword occurs as a contiguous piece of the title;
  when \<open>case_sensitive\<close> is false, title and keywords are both lowercased before the
  comparison, with \<open>str.lower\<close>, which on ASCII strings replaces the letters A to Z by
  a to z. The loop lowercases the keyword list again at every record, so the
  case-insensitive result rests on \<open>str.lower\<close> leaving a lowercased string as it is.
  The title "Space Exploration Today" matches ["space"] case-insensitively and
  ["Space"] case-sensitively, and the title "space exploration" does not match
  ["Space"] case-sensitively.
\<close>

theorem filter_by_keywords_in_title_substring:
  assumes "\<forall>v \<in> set videos. string_title v \<noteq> None"
    and "case_sensitive \<or> lower_idempotent U"
  shows "filter_by_keywords_in_title U videos keywords case_sensitive =
           Inr (filter (\<lambda>v. \<exists>k \<in> set keywords. \<exists>before after.
                          folded U case_sensitive (the (string_title v)) =
                            before @ folded U case_sensitive k @ after) videos)
       \<and> folded U True = (\<lambda>s. s) \<and> folded U False = str_lower U
       \<and> (is_ascii s \<longrightarrow> str_lower U s = map lower_char s)
       \<and> filter_by_keywords_in_title U [titled ''Space Exploration Today''] [''space''] False =
           Inr [titled ''Space Exploration Today'']
       \<and> filter_by_keywords_in_title U [titled ''Space Exploration Today''] [''Space''] True =
           Inr [titled ''Space Exploration Today'']
       \<and> filter_by_keywords_in_title U [titled ''space exploration''] [''Space''] True = Inr []"
proof -
  have "filter_by_keywords_in_title U [titled ''Space Exploration Today''] [''space''] False =
           Inr [titled ''Space Exploration Today'']"
    by code_simp
  moreover have
    "filter_by_keywords_in_title U [titled ''Space Exploration Today''] [''Space''] True =
           Inr [titled ''Space Exploration Today'']"
    by code_simp
  moreover have
    "filter_by_keywords_in_title U [titled ''space exploration''] [''Space''] True = Inr []"
    by code_simp
  moreover have "folded U True = (\<lambda>s. s) \<and> folded U False = str_lower U"
    by (auto simp: folded_def)
  moreover have "is_ascii s \<longrightarrow> str_lower U s = map lower_char s"
    by (simp add: str_lower_def lower_def)
  ultimately show ?thesis
    using filter_by_keywords_in_title_eq [OF assms, of "keywords"]
    by (simp add: sublist_def)
qed

text \<open>
  The theorem at three titles and two keywords, case-insensitively.
\<close>

theorem filter_by_keywords_in_title_substring_witness:
  "filter_by_keywords_in_title plain_tables
     [titled ''Mars Rover'', titled ''Deep SPACE Nine'', titled ''Cooking'']
     [''space'', ''mars''] False =
   Inr [titled ''Mars Rover'', titled ''Deep SPACE Nine'']
   \<and> str_lower plain_tables ''Deep SPACE Nine'' = ''deep space nine''"
proof -
  let ?vs = "[titled ''Mars Rover'', titled ''Deep SPACE Nine'', titled ''Cooking'']"
  have t: "\<forall>v \<in> set ?vs. string_title v \<noteq> None"
    by (simp add: titled_def dict_get_def)
  have i: "False \<or> lower_idempotent plain_tables"
    by (simp add: lower_idempotent_plain_tables)
  have eq: "(\<exists>before after. s = before @ k @ after) = is_substring k s" for s k :: string
    by (simp add: is_substring_iff sublist_def)
  have r: "filter (\<lambda>v. \<exists>k \<in> set [''space'', ''mars''].
                    is_substring (folded plain_tables False k)
                      (folded plain_tables False (the (string_title v)))) ?vs =
           [titled ''Mars Rover'', titled ''Deep SPACE Nine'']"
    by code_simp
  have a: "is_ascii ''Deep SPACE Nine''" by simp
  have l: "map lower_char ''Deep SPACE Nine'' = ''deep space nine''" by code_simp
  note inst = filter_by_keywords_in_title_substring
    [OF t i, of "[''space'', ''mars'']" "''Deep SPACE Nine''"]
  from inst
  have "filter_by_keywords_in_title plain_tables ?vs [''space'', ''mars''] False =
          Inr (filter (\<lambda>v. \<exists>k \<in> set [''space'', ''mars'']. \<exists>before after.
                         folded plain_tables False (the (string_title v)) =
                           before @ folded plain_tables False k @ after) ?vs)"
    by blast
  then have "filter_by_keywords_in_title plain_tables ?vs [''space'', ''mars''] False =
   Inr [titled ''Mars Rover'', titled ''Deep SPACE Nine'']"
    by (simp only: eq r)
  moreover from inst a l
  have "str_lower plain_tables ''Deep SPACE Nine'' = ''deep space nine''"
    by (simp only: simp_thms)
  ultimately show ?thesis by (rule conjI)
qed

section \<open>Sorting\<close>

text \<open>
  Claim C5, as stated, fails: the key of a record without the sort field is the integer
  0 whatever the field's type, so sorting by \<open>title\<close> a record titled "b" together with
  a record that has no title compares a string with 0 and raises TypeError.
\<close>

theorem sort_videos_missing_field_counterexample:
  "sort_videos [titled ''b'', PDict [(''view_count'', PInt 7)]] ''title'' True = Inl TypeError"
  by (simp add: sort_videos_def titled_def dict_get_def then_do_def py_sorted_def)

text \<open>
  Claim C5, amended. On records, \<open>sort_videos\<close> is a stable sort keyed by
  \<open>x.get(sort_by, 0)\<close>: when these keys are all numbers, or all strings, it does not
  raise and returns the records ordered by key (ascending, or descending with
  \<open>descending\<close>), a permutation of the input in which records with equal keys keep
  their relative input order. A record without the sort field has the key 0, and a
  sort field that no record has leaves the collection as it is, without raising.
\<close>

theorem sort_videos_stable:
  assumes "\<forall>v \<in> set videos. is_record v"
  shows "((\<forall>v \<in> set videos. num_of (field f v) \<noteq> None) \<longrightarrow>
            sort_videos videos f descending =
              Inr (stable_sorted (\<lambda>v. num_rank (field f v)) descending videos))
       \<and> ((\<forall>v \<in> set videos. is_str (field f v)) \<longrightarrow>
            sort_videos videos f descending =
              Inr (stable_sorted (\<lambda>v. str_rank (field f v)) descending videos))
       \<and> ((\<forall>v \<in> set videos. \<not> has_field f v) \<longrightarrow>
            sort_videos videos f descending = Inr videos)
       \<and> (\<forall>v. is_record v \<and> \<not> has_field f v \<longrightarrow> field f v = PInt 0)
       \<and> filter (\<lambda>v. rank v = r) (stable_sorted rank descending xs) =
           filter (\<lambda>v. rank v = r) xs
       \<and> mset (stable_sorted rank descending xs) = mset xs
       \<and> sorted (map rank (if descending then rev (stable_sorted rank descending xs)
                            else stable_sorted rank descending xs))"
proof -
  have num: "sort_videos videos f descending =
               Inr (stable_sorted (\<lambda>v. num_rank (field f v)) descending videos)"
    if "\<forall>v \<in> set videos. num_of (field f v) \<noteq> None"
    using assms that by (intro sort_videos_rank) (simp_all add: py_lt_num)
  have str: "sort_videos videos f descending =
               Inr (stable_sorted (\<lambda>v. str_rank (field f v)) descending videos)"
    if "\<forall>v \<in> set videos. is_str (field f v)"
    using assms that by (intro sort_videos_rank) (simp_all add: py_lt_str)
  have zero: "field f v = PInt 0" if "is_record v" "\<not> has_field f v" for v
    using that by (cases v) (simp_all add: dict_get_def)
  have none: "sort_videos videos f descending = Inr videos"
    if n: "\<forall>v \<in> set videos. \<not> has_field f v"
  proof -
    from assms n zero have z: "\<forall>v \<in> set videos. field f v = PInt 0" by blast
    then have "\<forall>v \<in> set videos. num_of (field f v) \<noteq> None" by simp
    from num [OF this] have "sort_videos videos f descending =
        Inr (stable_sorted (\<lambda>v. num_rank (field f v)) descending videos)" .
    moreover have "stable_sorted (\<lambda>v. num_rank (field f v)) descending videos = videos"
      using z by (intro stable_sorted_constant [where r = 0]) (simp add: num_rank_def)
    ultimately show ?thesis by simp
  qed
  show ?thesis
    using num str none zero stable_sorted_stable [of rank r descending xs]
      stable_sorted_ordered [of rank descending xs]
    by (simp add: stable_sorted_mset del: if_split)
qed

text \<open>
  The theorem at three records with view counts 5, 7, 5, sorted descending: the two
  records with 5 views keep their input order; and at a field that no record has.
\<close>

theorem sort_videos_stable_witness:
  "sort_videos
     [PDict [(''video_id'', PStr ''a''), (''view_count'', PInt 5)],
      PDict [(''video_id'', PStr ''b''), (''view_count'', PInt 7)],
      PDict [(''video_id'', PStr ''c''), (''view_count'', PInt 5)]] ''view_count'' True =
   Inr [PDict [(''video_id'', PStr ''b''), (''view_count'', PInt 7)],
        PDict [(''video_id'', PStr ''a''), (''view_count'', PInt 5)],
        PDict [(''video_id'', PStr ''c''), (''view_count'', PInt 5)]]
   \<and> sort_videos
     [PDict [(''video_id'', PStr ''a''), (''view_count'', PInt 5)],
      PDict [(''video_id'', PStr ''b''), (''view_count'', PInt 7)],
      PDict [(''video_id'', PStr ''c''), (''view_count'', PInt 5)]] ''rating'' True =
   Inr [PDict [(''video_id'', PStr ''a''), (''view_count'', PInt 5)],
        PDict [(''video_id'', PStr ''b''), (''view_count'', PInt 7)],
        PDict [(''video_id'', PStr ''c''), (''view_count'', PInt 5)]]"
  using sort_videos_stable
    [where videos = "[PDict [(''video_id'', PStr ''a''), (''view_count'', PInt 5)],
                      PDict [(''video_id'', PStr ''b''), (''view_count'', PInt 7)],
                      PDict [(''video_id'', PStr ''c''), (''view_count'', PInt 5)]]"
       and f = "''view_count''" and descending = True
       and rank = "\<lambda>i :: nat. i" and r = 0 and xs = "[]"]
    sort_videos_stable
    [where videos = "[PDict [(''video_id'', PStr ''a''), (''view_count'', PInt 5)],
                      PDict [(''video_id'', PStr ''b''), (''view_count'', PInt 7)],
                      PDict [(''video_id'', PStr ''c''), (''view_count'', PInt 5)]]"
       and f = "''rating''" and descending = True
       and rank = "\<lambda>i :: nat. i" and r = 0 and xs = "[]"]
  by (simp add: dict_get_def stable_sorted_def num_rank_def)

section \<open>Batch pipeline\<close>

text \<open>
  Claim C6. When every raw item normalizes, \<open>process_video_batch\<close> is the fixed
  composition: the normalized records, filtered by \<open>view_count >= min_views\<close>, then
  filtered by \<open>filter_by_keywords_in_title\<close> (case-insensitive) only when a non-empty
  keyword list was supplied, then sorted by view count, descending and stable. In
  closed form the keyword step keeps the records whose lowercased title holds a
  lowercased keyword, \<open>str.lower\<close> leaving a lowercased string as it is. Raw items
  with view counts 5000, 20000, 15000, the threshold 10000 and no keywords give
  exactly the records of the second and the third item, in the order 20000, 15000.
\<close>

theorem process_video_batch_order:
  assumes "map_raising (extract_video_info U) raw_videos = Inr records"
  shows "(filter_keywords = None \<or> filter_keywords = Some [] \<longrightarrow>
            process_video_batch U raw_videos min_views filter_keywords =
              Inr (stable_sorted views True (filter (\<lambda>r. min_views \<le> views r) records)))
       \<and> (\<forall>ks. ks \<noteq> [] \<longrightarrow>
            process_video_batch U raw_videos min_views (Some ks) =
              then_do (filter_by_keywords_in_title U
                         (filter (\<lambda>r. min_views \<le> views r) records) ks False)
                (\<lambda>kept. sort_videos kept ''view_count'' True))
       \<and> (\<forall>ks. ks \<noteq> [] \<and> (\<forall>r \<in> set records. string_title r \<noteq> None)
               \<and> lower_idempotent U \<longrightarrow>
            process_video_batch U raw_videos min_views (Some ks) =
              Inr (stable_sorted views True
                     (filter (title_matches U ks)
                        (filter (\<lambda>r. min_views \<le> views r) records))))
       \<and> process_video_batch U
           [raw_item ''a'' ''5000'', raw_item ''b'' ''20000'', raw_item ''c'' ''15000'']
           10000 None =
         map_raising (extract_video_info U)
           [raw_item ''b'' ''20000'', raw_item ''c'' ''15000'']
       \<and> map_raising (\<lambda>r. Inr (views r))
           (projr (process_video_batch U
              [raw_item ''a'' ''5000'', raw_item ''b'' ''20000'', raw_item ''c'' ''15000'']
              10000 None)) = Inr [20000, 15000]"
proof -
  have a: "process_video_batch U
           [raw_item ''a'' ''5000'', raw_item ''b'' ''20000'', raw_item ''c'' ''15000'']
           10000 None =
         map_raising (extract_video_info U)
           [raw_item ''b'' ''20000'', raw_item ''c'' ''15000'']"
    by code_simp
  have b: "map_raising (\<lambda>r. Inr (views r))
           (projr (process_video_batch U
              [raw_item ''a'' ''5000'', raw_item ''b'' ''20000'', raw_item ''c'' ''15000'']
              10000 None)) = Inr [20000, 15000]"
    by code_simp
  have c: "process_video_batch U raw_videos min_views (Some ks) =
              then_do (filter_by_keywords_in_title U
                         (filter (\<lambda>r. min_views \<le> views r) records) ks False)
                (\<lambda>kept. sort_videos kept ''view_count'' True)" if "ks \<noteq> []" for ks
    using that assms filter_by_views_records [OF extracted_records [OF assms], of min_views]
    by (simp add: process_video_batch_def then_do_def)
  show ?thesis
    using a b c process_video_batch_no_keywords [OF assms, of filter_keywords min_views]
      process_video_batch_keywords [OF assms, of _ min_views]
    by blast
qed

text \<open>
  The theorem at three raw items titled "Space Walk" (20000 views), "Cooking" (30000)
  and "Deep SPACE" (5000), the threshold 10000 and the keyword "space": only the first
  passes both filters.
\<close>

theorem process_video_batch_order_witness:
  "process_video_batch plain_tables three_raw 10000 (Some [''space'']) =
     map_raising (extract_video_info plain_tables) [raw_titled ''a'' ''Space Walk'' ''20000'']
   \<and> process_video_batch plain_tables three_raw 10000 None =
     map_raising (extract_video_info plain_tables)
       [raw_titled ''b'' ''Cooking'' ''30000'', raw_titled ''a'' ''Space Walk'' ''20000'']"
proof -
  let ?U = plain_tables
  have h: "map_raising (extract_video_info ?U) three_raw = Inr (three_records ?U)"
    by code_simp
  have t: "\<forall>r \<in> set (three_records ?U). string_title r \<noteq> None"
    by code_simp
  have k: "Inr (stable_sorted views True
                  (filter (\<lambda>r. \<exists>k \<in> set [''space''].
                             is_substring (str_lower ?U k)
                               (str_lower ?U (the (string_title r))))
                     (filter (\<lambda>r. 10000 \<le> views r) (three_records ?U)))) =
           map_raising (extract_video_info ?U) [raw_titled ''a'' ''Space Walk'' ''20000'']"
    by code_simp
  have n: "Inr (stable_sorted views True
                  (filter (\<lambda>r. 10000 \<le> views r) (three_records ?U))) =
           map_raising (extract_video_info ?U)
             [raw_titled ''b'' ''Cooking'' ''30000'', raw_titled ''a'' ''Space Walk'' ''20000'']"
    by code_simp
  note inst = process_video_batch_order [OF h, of None 10000]
  from inst have "process_video_batch ?U three_raw 10000 None =
      Inr (stable_sorted views True (filter (\<lambda>r. 10000 \<le> views r) (three_records ?U)))"
    by blast
  then have p1: "process_video_batch ?U three_raw 10000 None =
      map_raising (extract_video_info ?U)
        [raw_titled ''b'' ''Cooking'' ''30000'', raw_titled ''a'' ''Space Walk'' ''20000'']"
    using n by (rule trans)
  from inst t lower_idempotent_plain_tables
  have "process_video_batch ?U three_raw 10000 (Some [''space'']) =
      Inr (stable_sorted views True
             (filter (title_matches ?U [''space''])
                (filter (\<lambda>r. 10000 \<le> views r) (three_records ?U))))"
    by blast
  then have "process_video_batch ?U three_raw 10000 (Some [''space'']) =
      Inr (stable_sorted views True
                  (filter (\<lambda>r. \<exists>k \<in> set [''space''].
                             is_substring (str_lower ?U k)
                               (str_lower ?U (the (string_title r))))
                     (filter (\<lambda>r. 10000 \<le> views r) (three_records ?U))))"
    by (simp only: title_matches_def [abs_def] is_substring_iff)
  then have p2: "process_video_batch ?U three_raw 10000 (Some [''space'']) =
      map_raising (extract_video_info ?U) [raw_titled ''a'' ''Space Walk'' ''20000'']"
    using k by (rule trans)
  from p2 p1 show ?thesis by (rule conjI)
qed

section \<open>The empty keyword list\<close>

text \<open>
  Claim C10. On records with string titles, \<open>filter_by_keywords_in_title\<close> with the
  empty keyword list returns the empty list. \<open>process_video_batch\<close> with the empty
  keyword list does what it does with no keyword list: it skips the keyword filter and,
  when the raw items normalize, returns every record that passes the view filter,
  sorted by view count descending.
\<close>

theorem empty_keyword_list_entry_points:
  "((\<forall>v \<in> set videos. string_title v \<noteq> None) \<longrightarrow>
      filter_by_keywords_in_title U videos [] case_sensitive = Inr [])
   \<and> process_video_batch U raw_videos min_views (Some []) =
       process_video_batch U raw_videos min_views None
   \<and> (\<forall>records. map_raising (extract_video_info U) raw_videos = Inr records \<longrightarrow>
        process_video_batch U raw_videos min_views (Some []) =
          Inr (stable_sorted views True (filter (\<lambda>r. min_views \<le> views r) records)))"
proof -
  have "filter_by_keywords_in_title U videos [] case_sensitive = Inr []"
    if "\<forall>v \<in> set videos. string_title v \<noteq> None"
    using keyword_loop_no_keywords [OF that, of U case_sensitive "[]"]
    by (simp add: filter_by_keywords_in_title_def)
  moreover have "process_video_batch U raw_videos min_views (Some []) =
       process_video_batch U raw_videos min_views None"
    by (simp add: process_video_batch_def)
  ultimately show ?thesis
    using process_video_batch_no_keywords [of U raw_videos _ "Some []" min_views] by blast
qed

theorem empty_keyword_list_entry_points_witness:
  "filter_by_keywords_in_title plain_tables (three_records plain_tables) [] False = Inr []
   \<and> process_video_batch plain_tables three_raw 10000 (Some []) =
     map_raising (extract_video_info plain_tables)
       [raw_titled ''b'' ''Cooking'' ''30000'', raw_titled ''a'' ''Space Walk'' ''20000'']"
proof -
  let ?U = plain_tables
  have h: "map_raising (extract_video_info ?U) three_raw = Inr (three_records ?U)"
    by code_simp
  have t: "\<forall>r \<in> set (three_records ?U). string_title r \<noteq> None"
    by code_simp
  have n: "Inr (stable_sorted views True
                  (filter (\<lambda>r. 10000 \<le> views r) (three_records ?U))) =
           map_raising (extract_video_info ?U)
             [raw_titled ''b'' ''Cooking'' ''30000'', raw_titled ''a'' ''Space Walk'' ''20000'']"
    by code_simp
  note inst = empty_keyword_list_entry_points
         [where videos = "three_records plain_tables" and case_sensitive = False
            and raw_videos = three_raw and min_views = 10000 and U = plain_tables]
  from inst t
  have p1: "filter_by_keywords_in_title ?U (three_records ?U) [] False = Inr []"
    by blast
  from inst h have "process_video_batch ?U three_raw 10000 (Some []) =
      Inr (stable_sorted views True (filter (\<lambda>r. 10000 \<le> views r) (three_records ?U)))"
    by blast
  then have p2: "process_video_batch ?U three_raw 10000 (Some []) =
      map_raising (extract_video_info ?U)
        [raw_titled ''b'' ''Cooking'' ''30000'', raw_titled ''a'' ''Space Walk'' ''20000'']"
    using n by (rule trans)
  from p1 p2 show ?thesis by (rule conjI)
qed

section \<open>Record normalizer\<close>

text \<open>
  Claim C1, as stated, fails twice. A view count that is not numeric is not treated as
  0: \<open>int('abc')\<close> raises ValueError, in both variants of \<open>extract_video_info\<close>. And
  a raw item without any optional section does not get all string fields empty: its
  duration is "0:00", its tags "No tags" and its thumbnail URL "No thumbnail".
\<close>

theorem extract_video_info_counterexample:
  "(\<forall>U. extract_video_info U (raw_item ''x'' ''abc'') = Inl ValueError)
   \<and> (\<forall>U. extract_video_info_general U (raw_item ''x'' ''abc'') = Inl ValueError)
   \<and> (\<forall>U. map_sum id (\<lambda>r. map (\<lambda>f. field f r) [''duration'', ''tags'', ''thumbnail_url''])
        (extract_video_info U (PDict [(''id'', PStr ''x'')])) =
      Inr [PStr ''0:00'', PStr ''No tags'', PStr ''No thumbnail''])"
proof -
  have "extract_video_info U (raw_item ''x'' ''abc'') = Inl ValueError" for U
    by code_simp
  moreover have "extract_video_info_general U (raw_item ''x'' ''abc'') = Inl ValueError" for U
    by code_simp
  moreover have
    "map_sum id (\<lambda>r. map (\<lambda>f. field f r) [''duration'', ''tags'', ''thumbnail_url''])
        (extract_video_info U (PDict [(''id'', PStr ''x'')])) =
      Inr [PStr ''0:00'', PStr ''No tags'', PStr ''No thumbnail'']" for U
    by code_simp
  ultimately show ?thesis by blast
qed

text \<open>
  Claim C1, amended. For every raw item whose sections have the documented types,
  \<open>extract_video_info\<close> (in both variants) does not raise and returns exactly the
  record built from the item's parts: identifier, title, channel, channel id,
  publication time and description as the snippet has them (empty when absent), the
  description cut to 500 characters, the view, like and comment counts each \<open>int()\<close>
  of its entry in \<open>statistics\<close>, the parsed and the formatted duration with
  \<open>is_short\<close> and the category of the parsed duration, the joined tags ("No tags"
  for none) and the tag list, the thumbnail, and the URL built from \<open>str(id)\<close>. A
  count that is absent is 0, a decimal string of at most 4300 digits counts as its
  value, an integer as itself. A raw item without the \<open>snippet\<close>, \<open>statistics\<close> and
  \<open>contentDetails\<close> sections yields the default record: title, channel, channel id,
  publication time and both descriptions empty, the three counts and
  \<open>duration_seconds\<close> 0, the tag list empty, the thumbnail object empty and zero,
  category Unknown, \<open>is_short\<close> false, with the display strings "0:00", "No tags" and
  "No thumbnail" and the URL built from the identifier.
\<close>

theorem extract_video_info_normalizes:
  "(well_typed_raw U video \<longrightarrow>
      (\<exists>d s st cd th hi view_count like_count comment_count seconds shown tags_string
          description_short id_string.
           video = PDict d
         \<and> dict_get d ''snippet'' (PDict []) = PDict s
         \<and> dict_get d ''statistics'' (PDict []) = PDict st
         \<and> dict_get d ''contentDetails'' (PDict []) = PDict cd
         \<and> dict_get s ''thumbnails'' (PDict []) = PDict th
         \<and> dict_get th ''high'' (PDict []) = PDict hi
         \<and> count_of U (PDict st) ''viewCount'' = Inr view_count
         \<and> count_of U (PDict st) ''likeCount'' = Inr like_count
         \<and> count_of U (PDict st) ''commentCount'' = Inr comment_count
         \<and> parse_duration U (dict_get cd ''duration'' (PStr ''N/A'')) = Inr seconds
         \<and> format_duration seconds = Inr shown
         \<and> (if truthy (dict_get s ''tags'' (PList []))
             then py_join '', '' (dict_get s ''tags'' (PList []))
             else Inr ''No tags'') = Inr tags_string
         \<and> py_slice_to (dict_get s ''description'' (PStr [])) 500 = Inr description_short
         \<and> py_str U (dict_get d ''id'' PNone) = Inr id_string
         \<and> extract_video_info U video =
             Inr (built_record (dict_get d ''id'' PNone) id_string s hi view_count like_count
                    comment_count seconds shown tags_string description_short)
         \<and> extract_video_info_general U video =
             Inr (built_record_general (dict_get d ''id'' PNone) id_string s hi cd view_count
                    like_count comment_count tags_string description_short)))
   \<and> (map_of d ''snippet'' = None \<and> map_of d ''statistics'' = None
        \<and> map_of d ''contentDetails'' = None \<and> plain_id (dict_get d ''id'' PNone) \<longrightarrow>
        well_typed_raw U (PDict d)
      \<and> (\<exists>id_string. py_str U (dict_get d ''id'' PNone) = Inr id_string
          \<and> extract_video_info U (PDict d) =
              Inr (default_record (dict_get d ''id'' PNone) id_string)
          \<and> extract_video_info_general U (PDict d) =
              Inr (default_record_general (dict_get d ''id'' PNone) id_string)))
   \<and> py_str U (PStr i) = Inr i \<and> py_str U PNone = Inr ''None''
   \<and> (map_of st k = None \<longrightarrow> count_of U (PDict st) k = Inr 0)
   \<and> (fits (Some n) \<longrightarrow> count_of U (PDict [(k, PStr (dec n))]) k = Inr (int n))
   \<and> count_of U (PDict [(k, PInt j)]) k = Inr j"
proof -
  have typed: "well_typed_raw U video \<longrightarrow>
      (\<exists>d s st cd th hi view_count like_count comment_count seconds shown tags_string
          description_short id_string.
           video = PDict d
         \<and> dict_get d ''snippet'' (PDict []) = PDict s
         \<and> dict_get d ''statistics'' (PDict []) = PDict st
         \<and> dict_get d ''contentDetails'' (PDict []) = PDict cd
         \<and> dict_get s ''thumbnails'' (PDict []) = PDict th
         \<and> dict_get th ''high'' (PDict []) = PDict hi
         \<and> count_of U (PDict st) ''viewCount'' = Inr view_count
         \<and> count_of U (PDict st) ''likeCount'' = Inr like_count
         \<and> count_of U (PDict st) ''commentCount'' = Inr comment_count
         \<and> parse_duration U (dict_get cd ''duration'' (PStr ''N/A'')) = Inr seconds
         \<and> format_duration seconds = Inr shown
         \<and> (if truthy (dict_get s ''tags'' (PList []))
             then py_join '', '' (dict_get s ''tags'' (PList []))
             else Inr ''No tags'') = Inr tags_string
         \<and> py_slice_to (dict_get s ''description'' (PStr [])) 500 = Inr description_short
         \<and> py_str U (dict_get d ''id'' PNone) = Inr id_string
         \<and> extract_video_info U video =
             Inr (built_record (dict_get d ''id'' PNone) id_string s hi view_count like_count
                    comment_count seconds shown tags_string description_short)
         \<and> extract_video_info_general U video =
             Inr (built_record_general (dict_get d ''id'' PNone) id_string s hi cd view_count
                    like_count comment_count tags_string description_short))"
  proof
    assume "well_typed_raw U video"
    from well_typed_parts [OF this]
    obtain d s st cd th hi n1 n2 n3 secs shown tags_string short u where p:
      "video = PDict d"
      "dict_get d ''snippet'' (PDict []) = PDict s"
      "dict_get d ''statistics'' (PDict []) = PDict st"
      "dict_get d ''contentDetails'' (PDict []) = PDict cd"
      "dict_get s ''thumbnails'' (PDict []) = PDict th"
      "dict_get th ''high'' (PDict []) = PDict hi"
      "count_of U (PDict st) ''viewCount'' = Inr n1"
      "count_of U (PDict st) ''likeCount'' = Inr n2"
      "count_of U (PDict st) ''commentCount'' = Inr n3"
      "parse_duration U (dict_get cd ''duration'' (PStr ''N/A'')) = Inr secs"
      "format_duration secs = Inr shown"
      "(if truthy (dict_get s ''tags'' (PList []))
        then py_join '', '' (dict_get s ''tags'' (PList []))
        else Inr ''No tags'') = Inr tags_string"
      "py_slice_to (dict_get s ''description'' (PStr [])) 500 = Inr short"
      "py_str U (dict_get d ''id'' PNone) = Inr u"
      by blast
    note b = extract_video_info_built [OF p(2-14)]
    from p b show "\<exists>d s st cd th hi view_count like_count comment_count seconds shown
          tags_string description_short id_string.
           video = PDict d
         \<and> dict_get d ''snippet'' (PDict []) = PDict s
         \<and> dict_get d ''statistics'' (PDict []) = PDict st
         \<and> dict_get d ''contentDetails'' (PDict []) = PDict cd
         \<and> dict_get s ''thumbnails'' (PDict []) = PDict th
         \<and> dict_get th ''high'' (PDict []) = PDict hi
         \<and> count_of U (PDict st) ''viewCount'' = Inr view_count
         \<and> count_of U (PDict st) ''likeCount'' = Inr like_count
         \<and> count_of U (PDict st) ''commentCount'' = Inr comment_count
         \<and> parse_duration U (dict_get cd ''duration'' (PStr ''N/A'')) = Inr seconds
         \<and> format_duration seconds = Inr shown
         \<and> (if truthy (dict_get s ''tags'' (PList []))
             then py_join '', '' (dict_get s ''tags'' (PList []))
             else Inr ''No tags'') = Inr tags_string
         \<and> py_slice_to (dict_get s ''description'' (PStr [])) 500 = Inr description_short
         \<and> py_str U (dict_get d ''id'' PNone) = Inr id_string
         \<and> extract_video_info U video =
             Inr (built_record (dict_get d ''id'' PNone) id_string s hi view_count like_count
                    comment_count seconds shown tags_string description_short)
         \<and> extract_video_info_general U video =
             Inr (built_record_general (dict_get d ''id'' PNone) id_string s hi cd view_count
                    like_count comment_count tags_string description_short)"
      by blast
  qed
  have defaults: "well_typed_raw U (PDict d)
      \<and> (\<exists>id_string. py_str U (dict_get d ''id'' PNone) = Inr id_string
          \<and> extract_video_info U (PDict d) =
              Inr (default_record (dict_get d ''id'' PNone) id_string)
          \<and> extract_video_info_general U (PDict d) =
              Inr (default_record_general (dict_get d ''id'' PNone) id_string))"
    if a: "map_of d ''snippet'' = None" "map_of d ''statistics'' = None"
       "map_of d ''contentDetails'' = None" and i: "plain_id (dict_get d ''id'' PNone)"
  proof -
    from id_string_total [OF i, of U] obtain u where
      u: "py_str U (dict_get d ''id'' PNone) = Inr u" by blast
    have "well_typed_raw U (PDict d)"
      using a i
      by (simp add: well_typed_raw_def well_typed_snippet_def well_typed_statistics_def
          well_typed_content_def dict_get_def is_count_def)
    with u extract_video_info_defaults [OF a u] extract_video_info_general_defaults [OF a u]
    show ?thesis by blast
  qed
  have "fits (Some n) \<longrightarrow> count_of U (PDict [(k, PStr (dec n))]) k = Inr (int n)"
    by (simp add: count_of_def then_do_def dict_get_def int_of_string_dec)
  moreover have "count_of U (PDict [(k, PInt j)]) k = Inr j"
    by (simp add: count_of_def then_do_def dict_get_def)
  moreover have "map_of st k = None \<longrightarrow> count_of U (PDict st) k = Inr 0"
    by (simp add: count_of_def then_do_def dict_get_def)
  moreover have "py_str U (PStr i) = Inr i \<and> py_str U PNone = Inr ''None''"
    by simp
  ultimately show ?thesis
    using typed defaults by blast
qed

text \<open>
  The theorem at a raw item with a title, 20000 views, 7 likes, 3 comments and the
  duration \<open>PT1M5S\<close>.
\<close>

theorem extract_video_info_normalizes_witness:
  "well_typed_raw plain_tables full_item
   \<and> extract_video_info plain_tables full_item =
       Inr (built_record (PStr ''a'') ''a'' [(''title'', PStr ''Space Walk'')] []
              20000 7 3 65 ''1:05'' ''No tags'' (PStr []))
   \<and> extract_video_info_general plain_tables full_item =
       Inr (built_record_general (PStr ''a'') ''a'' [(''title'', PStr ''Space Walk'')] []
              [(''duration'', PStr ''PT1M5S'')] 20000 7 3 ''No tags'' (PStr []))"
proof -
  let ?U = plain_tables
  let ?st = "[(''viewCount'', PStr ''20000''), (''likeCount'', PStr ''7''),
              (''commentCount'', PInt 3)]"
  have w: "well_typed_raw ?U full_item"
    by code_simp
  from extract_video_info_normalizes
    [where U = ?U and video = full_item, THEN conjunct1, THEN mp, OF w]
  obtain d s st cd th hi n1 n2 n3 secs shown tags_string short u where p:
      "full_item = PDict d"
      "dict_get d ''snippet'' (PDict []) = PDict s"
      "dict_get d ''statistics'' (PDict []) = PDict st"
      "dict_get d ''contentDetails'' (PDict []) = PDict cd"
      "dict_get s ''thumbnails'' (PDict []) = PDict th"
      "dict_get th ''high'' (PDict []) = PDict hi"
      "count_of ?U (PDict st) ''viewCount'' = Inr n1"
      "count_of ?U (PDict st) ''likeCount'' = Inr n2"
      "count_of ?U (PDict st) ''commentCount'' = Inr n3"
      "parse_duration ?U (dict_get cd ''duration'' (PStr ''N/A'')) = Inr secs"
      "format_duration secs = Inr shown"
      "(if truthy (dict_get s ''tags'' (PList []))
        then py_join '', '' (dict_get s ''tags'' (PList []))
        else Inr ''No tags'') = Inr tags_string"
      "py_slice_to (dict_get s ''description'' (PStr [])) 500 = Inr short"
      "py_str ?U (dict_get d ''id'' PNone) = Inr u"
    and e: "extract_video_info ?U full_item =
             Inr (built_record (dict_get d ''id'' PNone) u s hi n1 n2 n3 secs shown
                    tags_string short)"
      "extract_video_info_general ?U full_item =
             Inr (built_record_general (dict_get d ''id'' PNone) u s hi cd n1 n2 n3
                    tags_string short)"
    by blast
  from p(1) have d: "d = [(''id'', PStr ''a''),
            (''snippet'', PDict [(''title'', PStr ''Space Walk'')]),
            (''statistics'', PDict ?st),
            (''contentDetails'', PDict [(''duration'', PStr ''PT1M5S'')])]"
    by (simp add: full_item_def)
  from p(2) have s: "s = [(''title'', PStr ''Space Walk'')]"
    by (simp add: d dict_get_def)
  from p(3) have st: "st = ?st"
    by (simp add: d dict_get_def)
  from p(4) have cd: "cd = [(''duration'', PStr ''PT1M5S'')]"
    by (simp add: d dict_get_def)
  from p(5) have th: "th = []"
    by (simp add: s dict_get_def)
  from p(6) have hi: "hi = []"
    by (simp add: th dict_get_def)
  have "count_of ?U (PDict ?st) ''viewCount'' = Inr 20000" by code_simp
  with p(7) have n1: "n1 = 20000" by (simp add: st)
  have "count_of ?U (PDict ?st) ''likeCount'' = Inr 7" by code_simp
  with p(8) have n2: "n2 = 7" by (simp add: st)
  have "count_of ?U (PDict ?st) ''commentCount'' = Inr 3" by code_simp
  with p(9) have n3: "n3 = 3" by (simp add: st)
  have "parse_duration ?U (PStr ''PT1M5S'') = Inr 65" by code_simp
  with p(10) have secs: "secs = 65" by (simp add: cd dict_get_def)
  have "format_duration 65 = Inr ''1:05''" by code_simp
  with p(11) have shown: "shown = ''1:05''" by (simp add: secs)
  from p(12) have tags: "tags_string = ''No tags''"
    by (simp add: s dict_get_def)
  from p(13) have short: "short = PStr []"
    by (simp add: s dict_get_def)
  from p(14) have u: "u = ''a''"
    by (simp add: d dict_get_def)
  have i: "dict_get d ''id'' PNone = PStr ''a''"
    by (simp add: d dict_get_def)
  from e w show ?thesis
    by (simp only: i u s hi cd n1 n2 n3 secs shown tags short simp_thms)
qed


end
